theory Spec2Isabelle
  imports Main
begin

section \<open>Python strings\<close>

text \<open>
  A Python \<open>str\<close> is a sequence of Unicode code points, so a character is modelled by
  its code point and a string by a list of code points. \<open>py\<close> embeds an ASCII literal.
  The two characters of the Japanese header are U+76EE (30446) and U+6B21 (27425).
\<close>

type_synonym pchar = nat
type_synonym pstr = "pchar list"

definition py :: "string \<Rightarrow> pstr" where
  "py s = map of_char s"

text \<open>
  The characters \<open>str.strip()\<close> removes and the class \<open>\s\<close> of \<open>re\<close> matches on a
  \<open>str\<close> pattern: both ask CPython's whitespace test, which holds for U+0009..U+000D,
  U+001C..U+0020, U+0085, U+00A0, U+1680, U+2000..U+200A, U+2028, U+2029, U+202F, U+205F
  and U+3000.
\<close>

definition is_space :: "pchar \<Rightarrow> bool" where
  "is_space c =
     ((9 \<le> c \<and> c \<le> 13) \<or> (28 \<le> c \<and> c \<le> 32) \<or> c = 133 \<or> c = 160 \<or> c = 5760 \<or>
      (8192 \<le> c \<and> c \<le> 8202) \<or> c = 8232 \<or> c = 8233 \<or> c = 8239 \<or> c = 8287 \<or> c = 12288)"

text \<open>\<open>s.split('\n')\<close>: never the empty list; \<open>'\n'.join(lines)\<close>.\<close>

fun split_nl :: "pstr \<Rightarrow> pstr list" where
  "split_nl [] = [[]]"
| "split_nl (c # cs) =
     (if c = 10 then [] # split_nl cs
      else (case split_nl cs of [] \<Rightarrow> [[c]] | l # ls \<Rightarrow> (c # l) # ls))"

fun join_nl :: "pstr list \<Rightarrow> pstr" where
  "join_nl [] = []"
| "join_nl [l] = l"
| "join_nl (l # l' # ls) = l @ 10 # join_nl (l' # ls)"

text \<open>\<open>s.strip(chars)\<close> removes the characters of a class at both ends; \<open>s.strip()\<close>
  removes whitespace.\<close>

definition strip_chars :: "(pchar \<Rightarrow> bool) \<Rightarrow> pstr \<Rightarrow> pstr" where
  "strip_chars P s = rev (dropWhile P (rev (dropWhile P s)))"

definition strip :: "pstr \<Rightarrow> pstr" where
  "strip s = strip_chars is_space s"

definition starts_with :: "pstr \<Rightarrow> pstr \<Rightarrow> bool" where
  "starts_with s p = (take (length p) s = p)"

section \<open>The regular expressions of the source\<close>

text \<open>
  Every pattern of the source is a sequence of greedy repetitions of a character class,
  \<open>cls{lo,hi}\<close> (\<open>cls+\<close> is \<open>cls{1,}\<close>, a bare class is \<open>cls{1,1}\<close>), with or without a
  final \<open>$\<close>. \<open>re_seq\<close> is the backtracking matcher anchored at the start of the string
  (\<open>re.match\<close>): each repetition tries its longest admissible length first and gives
  characters back one at a time; the result is the list of the substrings the repetitions
  matched. \<open>$\<close> succeeds at the end of the string and before a final newline.
\<close>

type_synonym atom = "(pchar \<Rightarrow> bool) \<times> nat \<times> nat option"

fun first_some :: "'a option list \<Rightarrow> 'a option" where
  "first_some [] = None"
| "first_some (None # xs) = first_some xs"
| "first_some (Some y # xs) = Some y"

fun greedy_splits :: "(pchar \<Rightarrow> bool) \<Rightarrow> pstr \<Rightarrow> (pstr \<times> pstr) list" where
  "greedy_splits cls [] = [([], [])]"
| "greedy_splits cls (c # cs) =
     (if cls c then map (\<lambda>(p, r). (c # p, r)) (greedy_splits cls cs) @ [([], c # cs)]
      else [([], c # cs)])"

definition in_bounds :: "nat \<Rightarrow> nat option \<Rightarrow> nat \<Rightarrow> bool" where
  "in_bounds lo hi n = (lo \<le> n \<and> (case hi of None \<Rightarrow> True | Some h \<Rightarrow> n \<le> h))"

primrec re_seq :: "atom list \<Rightarrow> bool \<Rightarrow> pstr \<Rightarrow> pstr list option" where
  "re_seq [] dollar =
     (\<lambda>s. if dollar then (if s = [] \<or> s = [10] then Some [] else None) else Some [])"
| "re_seq (a # as) dollar =
     (\<lambda>s. first_some
        (map (\<lambda>(p, r). map_option (Cons p) (re_seq as dollar r))
           (filter (\<lambda>(p, r). in_bounds (fst (snd a)) (snd (snd a)) (length p))
              (greedy_splits (fst a) s))))"

text \<open>
  \<open>re.sub(pattern, repl, s)\<close>: scan from the left; where the pattern matches, emit the
  replacement and continue behind the match; elsewhere copy one character. (An empty
  match emits the replacement and copies the character, as Python 3.7 and later do; no
  pattern of the source matches the empty string.)
\<close>

function re_sub :: "atom list \<Rightarrow> pstr \<Rightarrow> pstr \<Rightarrow> pstr" where
  "re_sub pat repl [] = (case re_seq pat False [] of None \<Rightarrow> [] | Some gs \<Rightarrow> repl)"
| "re_sub pat repl (c # cs) =
     (case re_seq pat False (c # cs) of
        None \<Rightarrow> c # re_sub pat repl cs
      | Some gs \<Rightarrow>
          (if length (concat gs) = 0 then repl @ c # re_sub pat repl cs
           else repl @ re_sub pat repl (drop (length (concat gs)) (c # cs))))"
  by pat_completeness auto
termination
  by (relation "measure (\<lambda>(pat, repl, s). length s)") auto

section \<open>The Unicode tables of the Python runtime\<close>

text \<open>
  Two tables of the runtime are not part of the repository and are parameters of the
  model: which code points are alphanumeric (\<open>\w\<close> of \<open>re\<close> is an alphanumeric
  character or the underscore), and \<open>str.lower()\<close>, a function on whole strings (the
  lower case of a capital sigma depends on its neighbours, and one character can become
  two).
\<close>

record unicode =
  isalnum :: "pchar \<Rightarrow> bool"
  lower :: "pstr \<Rightarrow> pstr"

definition is_word :: "unicode \<Rightarrow> pchar \<Rightarrow> bool" where
  "is_word U c = (isalnum U c \<or> c = 95)"

text \<open>The tables restricted to ASCII: what Python computes on a string of ASCII characters.\<close>

definition ascii_lower :: "pchar \<Rightarrow> pchar" where
  "ascii_lower c = (if 65 \<le> c \<and> c \<le> 90 then c + 32 else c)"

definition ascii_unicode :: unicode where
  "ascii_unicode =
     \<lparr> isalnum = (\<lambda>c. (48 \<le> c \<and> c \<le> 57) \<or> (65 \<le> c \<and> c \<le> 90) \<or> (97 \<le> c \<and> c \<le> 122)),
       lower = map ascii_lower \<rparr>"

section \<open>Heading extraction and anchors\<close>

record heading =
  level :: nat
  htext :: pstr
  anchor :: pstr
  line :: nat

text \<open>
  \<open>generate_anchor\<close>: the three \<open>re.sub\<close> calls with the patterns \<open>[*_`]\<close>,
  \<open>[^\w\s-]\<close> and \<open>[\s_-]+\<close>, then \<open>strip('-')\<close>. Code points: \<open>*\<close> 42, \<open>_\<close> 95,
  backtick 96, \<open>-\<close> 45.
\<close>

definition generate_anchor :: "unicode \<Rightarrow> pstr \<Rightarrow> pstr" where
  "generate_anchor U text0 =
     (let text1 = re_sub [(\<lambda>c. c = 42 \<or> c = 95 \<or> c = 96, 1, Some 1)] [] text0;
          anchor1 = re_sub [(\<lambda>c. \<not> (is_word U c \<or> is_space c \<or> c = 45), 1, Some 1)] []
                      (lower U text1);
          anchor2 = re_sub [(\<lambda>c. is_space c \<or> c = 95 \<or> c = 45, 1, None)] [45] anchor1
      in strip_chars (\<lambda>c. c = 45) anchor2)"

text \<open>The pattern \<open>^(#{1,6})\s+(.+)$\<close>; \<open>#\<close> is 35 and \<open>.\<close> is any character but the
  newline. Group 1 is the first repetition, group 2 the third.\<close>

definition heading_re :: "atom list" where
  "heading_re = [(\<lambda>c. c = 35, 1, Some 6), (is_space, 1, None), (\<lambda>c. c \<noteq> 10, 1, None)]"

fun extract_loop :: "unicode \<Rightarrow> nat \<Rightarrow> nat \<Rightarrow> pstr list \<Rightarrow> heading list" where
  "extract_loop U max_depth line_num [] = []"
| "extract_loop U max_depth line_num (l # ls) =
     (case re_seq heading_re True (strip l) of
        None \<Rightarrow> extract_loop U max_depth (Suc line_num) ls
      | Some gs \<Rightarrow>
          (let lvl = length (gs ! 0); text1 = strip (gs ! 2) in
           if lvl \<le> max_depth
           then \<lparr> level = lvl, htext = text1, anchor = generate_anchor U text1,
                  line = line_num \<rparr> # extract_loop U max_depth (Suc line_num) ls
           else extract_loop U max_depth (Suc line_num) ls))"

definition extract_headings :: "unicode \<Rightarrow> pstr \<Rightarrow> nat \<Rightarrow> heading list" where
  "extract_headings U content max_depth = extract_loop U max_depth 1 (split_nl content)"

section \<open>Rendering the table of contents\<close>

definition toc_header_ja :: pstr where
  "toc_header_ja = py ''## '' @ [30446, 27425]"

definition toc_line :: "heading \<Rightarrow> pstr" where
  "toc_line h =
     (let indent = concat (replicate (level h - 1) (py ''  ''));
          link = py ''['' @ htext h @ py ''](#'' @ anchor h @ py '')''
      in indent @ py ''- '' @ link)"

definition generate_toc :: "heading list \<Rightarrow> pstr" where
  "generate_toc headings =
     (if headings = [] then []
      else join_nl ([toc_header_ja, []] @ map toc_line headings @ [[]]))"

section \<open>Locating and splicing the block\<close>

definition toc_headers :: "pstr list" where
  "toc_headers = [toc_header_ja, py ''## Table of Contents'', py ''## TOC'']"

definition is_toc_header :: "pstr \<Rightarrow> bool" where
  "is_toc_header l = (strip l \<in> set toc_headers)"

text \<open>The outer loop: the index of the first line that is a recognised header.\<close>

fun find_header :: "pstr list \<Rightarrow> nat \<Rightarrow> nat option" where
  "find_header [] i = None"
| "find_header (l # ls) i = (if is_toc_header l then Some i else find_header ls (Suc i))"

text \<open>\<open>re.match(r'^#{1,2}\s+', next_line) and not next_line.startswith('###')\<close>.\<close>

definition is_h12 :: "pstr \<Rightarrow> bool" where
  "is_h12 next_line =
     (re_seq [(\<lambda>c. c = 35, 1, Some 2), (is_space, 1, None)] False next_line \<noteq> None \<and>
      \<not> starts_with next_line (py ''###''))"

text \<open>The two backward loops, \<open>for k in range(j - 1, i, -1)\<close> and
  \<open>for j in range(len(lines) - 1, i, -1)\<close>, have the same body: one past the last
  non-blank line at an index in \<open>(i, k]\<close>.\<close>

function look_back :: "pstr list \<Rightarrow> nat \<Rightarrow> nat \<Rightarrow> nat option" where
  "look_back lines i k =
     (if k \<le> i then None
      else if strip (lines ! k) \<noteq> [] then Some (k + 1)
      else look_back lines i (k - 1))"
  by pat_completeness auto
termination
  by (relation "measure (\<lambda>(lines, i, k). k)") auto

declare look_back.simps [simp del]

text \<open>The forward loop \<open>for j in range(i + 1, len(lines))\<close>. Leaving it by the second
  \<open>break\<close> after a backward loop that found nothing leaves \<open>toc_end\<close> at \<open>None\<close>.\<close>

function scan_end :: "pstr list \<Rightarrow> nat \<Rightarrow> nat \<Rightarrow> nat option" where
  "scan_end lines i j =
     (if length lines \<le> j then None
      else (let next_line = strip (lines ! j) in
        if is_h12 next_line then Some j
        else if i + 1 < j \<and> next_line \<noteq> [] \<and> \<not> starts_with next_line (py ''-'') \<and>
                \<not> starts_with next_line (py ''  -'')
        then look_back lines i (j - 1)
        else scan_end lines i (j + 1)))"
  by pat_completeness auto
termination
  by (relation "measure (\<lambda>(lines, i, j). length lines - j)") auto

declare scan_end.simps [simp del]

definition locate :: "pstr list \<Rightarrow> nat option \<times> nat option" where
  "locate lines =
     (case find_header lines 0 of
        None \<Rightarrow> (None, None)
      | Some i \<Rightarrow>
          (Some i,
           (case scan_end lines i (i + 1) of
              None \<Rightarrow> look_back lines i (length lines - 1)
            | Some e \<Rightarrow> Some e)))"

definition find_existing_toc :: "pstr \<Rightarrow> nat option \<times> nat option" where
  "find_existing_toc content = locate (split_nl content)"

text \<open>\<open>while insert_pos < len(lines) and not lines[insert_pos].strip(): insert_pos += 1\<close>.\<close>

function skip_blank :: "pstr list \<Rightarrow> nat \<Rightarrow> nat" where
  "skip_blank lines insert_pos =
     (if insert_pos < length lines \<and> strip (lines ! insert_pos) = []
      then skip_blank lines (insert_pos + 1) else insert_pos)"
  by pat_completeness auto
termination
  by (relation "measure (\<lambda>(lines, insert_pos). length lines - insert_pos)") auto

declare skip_blank.simps [simp del]

definition insert_position :: "pstr list \<Rightarrow> nat" where
  "insert_position lines =
     (if lines \<noteq> [] \<and> starts_with (lines ! 0) (py ''# '') then skip_blank lines 1 else 0)"

definition insert_or_update_toc :: "pstr \<Rightarrow> pstr \<Rightarrow> pstr" where
  "insert_or_update_toc content toc =
     (let lines = split_nl content in
      case find_existing_toc content of
        (Some toc_start, Some toc_end) \<Rightarrow>
          join_nl (take toc_start lines @ split_nl toc @ drop toc_end lines)
      | (Some toc_start, None) \<Rightarrow>
          join_nl (take (insert_position lines) lines @ [[]] @ split_nl toc @
                   drop (insert_position lines) lines)
      | (None, toc_end) \<Rightarrow>
          join_nl (take (insert_position lines) lines @ [[]] @ split_nl toc @
                   drop (insert_position lines) lines))"

section \<open>The driver\<close>

text \<open>
  \<open>process_note\<close> from the point where the note has been fetched. The remote update is
  a parameter: it answers \<open>None\<close> when the write succeeded and the message of the
  exception otherwise. The result is the returned dictionary and the list of update
  calls made, each with its new content and its base content.
\<close>

record outcome =
  success :: bool
  message :: string

definition process_note ::
  "unicode \<Rightarrow> (pstr \<Rightarrow> pstr \<Rightarrow> string option) \<Rightarrow> pstr \<Rightarrow> nat \<Rightarrow> bool \<Rightarrow>
     outcome \<times> (pstr \<times> pstr) list" where
  "process_note U update_note_content original_content depth dry_run =
     (let headings = extract_headings U original_content depth in
      if headings = [] then (\<lparr> success = True, message = ''No headings found'' \<rparr>, [])
      else
        (let toc = generate_toc headings;
             new_content = insert_or_update_toc original_content toc
         in if dry_run then (\<lparr> success = True, message = ''Dry run completed'' \<rparr>, [])
            else (case update_note_content new_content original_content of
                    None \<Rightarrow> (\<lparr> success = True, message = ''Note updated successfully'' \<rparr>,
                              [(new_content, original_content)])
                  | Some e \<Rightarrow> (\<lparr> success = False, message = e \<rparr>,
                              [(new_content, original_content)]))))"

text \<open>\<open>main\<close>: the exit status of the process, from the returned dictionary.\<close>

definition exit_code :: "outcome \<Rightarrow> nat" where
  "exit_code result = (if success result then 0 else 1)"


section \<open>Definitions of the specification and of the proofs\<close>

text \<open>The longest length a repetition \<open>cls{lo,hi}\<close> can take at the start of \<open>s\<close>.\<close>

definition top_len :: "(pchar \<Rightarrow> bool) \<Rightarrow> nat option \<Rightarrow> pstr \<Rightarrow> nat" where
  "top_len cls hi s =
     (case hi of None \<Rightarrow> length (takeWhile cls s) | Some h \<Rightarrow> min (length (takeWhile cls s)) h)"

text \<open>
  What \<open>re.sub\<close> computes for a pattern \<open>cls+\<close>, as a recursion of its own: a
  character of the class starts a run, which is replaced as a whole.
\<close>

function squeeze :: "(pchar \<Rightarrow> bool) \<Rightarrow> pstr \<Rightarrow> pstr \<Rightarrow> pstr" where
  "squeeze P rep [] = []"
| "squeeze P rep (c # cs) =
     (if P c then rep @ squeeze P rep (dropWhile P cs) else c # squeeze P rep cs)"
  by pat_completeness auto
termination
  by (relation "measure (\<lambda>(P, rep, s). length s)") (auto simp: length_dropWhile_le less_Suc_eq_le)

text \<open>
  The specification's wording of the slug: the maximal runs of a string (maximal blocks of
  characters that are all inside or all outside the class), the replacement of every run
  inside the class, and the five steps in order.
\<close>

fun runs :: "(pchar \<Rightarrow> bool) \<Rightarrow> pstr \<Rightarrow> pstr list" where
  "runs P [] = []"
| "runs P (c # cs) =
     (case runs P cs of
        [] \<Rightarrow> [[c]]
      | r # rs \<Rightarrow> if P c = P (hd r) then (c # r) # rs else [c] # r # rs)"

definition replace_runs :: "(pchar \<Rightarrow> bool) \<Rightarrow> pstr \<Rightarrow> pstr \<Rightarrow> pstr" where
  "replace_runs P rep s = concat (map (\<lambda>r. if P (hd r) then rep else r) (runs P s))"

definition slug_spec :: "unicode \<Rightarrow> pstr \<Rightarrow> pstr" where
  "slug_spec U s =
     (let s1 = filter (\<lambda>c. c \<notin> {42, 95, 96}) s;
          s2 = lower U s1;
          s3 = filter (\<lambda>c. is_word U c \<or> is_space c \<or> c = 45) s2;
          s4 = replace_runs (\<lambda>c. is_space c \<or> c = 95 \<or> c = 45) [45] s3
      in strip_chars (\<lambda>c. c = 45) s4)"

text \<open>
  Facts about the runtime's tables that theorems assume where they need them. A table is
  compatible with ASCII when it agrees with \<open>ascii_unicode\<close> on ASCII characters
  and strings. Lower-casing is stable when a string made of hyphens and of characters that
  occur in some lower-cased string is its own lower case.
\<close>

definition ascii_compatible :: "unicode \<Rightarrow> bool" where
  "ascii_compatible U =
     ((\<forall>c. c < 128 \<longrightarrow> isalnum U c = isalnum ascii_unicode c) \<and>
      (\<forall>s. list_all (\<lambda>c. c < 128) s \<longrightarrow> lower U s = lower ascii_unicode s))"

definition lower_stable :: "unicode \<Rightarrow> bool" where
  "lower_stable U = (\<forall>s t. set t \<subseteq> insert 45 (set (lower U s)) \<longrightarrow> lower U t = t)"

text \<open>Every character of the class is a hyphen with no character of the class behind it.\<close>

fun isolated :: "(pchar \<Rightarrow> bool) \<Rightarrow> pstr \<Rightarrow> bool" where
  "isolated P [] = True"
| "isolated P (c # cs) =
     ((if P c then c = 45 \<and> (case cs of [] \<Rightarrow> True | d # ds \<Rightarrow> \<not> P d) else True) \<and>
      isolated P cs)"

text \<open>
  The specification's wording of the extractor. A trimmed line is a heading line when it
  is 1 to 6 \<open>#\<close> characters, followed by at least one whitespace character, followed
  by non-empty text; its level is the count of leading \<open>#\<close>, its text the trimmed
  remainder. The headings of a document are those of its heading lines of a level up to
  the depth, in the order of the lines, numbered from 1.
\<close>

definition hashes :: "pstr \<Rightarrow> nat" where
  "hashes s = length (takeWhile (\<lambda>c. c = 35) s)"

definition heading_line :: "pstr \<Rightarrow> bool" where
  "heading_line s =
     (\<exists>k ws t. 1 \<le> k \<and> k \<le> 6 \<and> ws \<noteq> [] \<and> list_all is_space ws \<and> t \<noteq> [] \<and>
        s = replicate k 35 @ ws @ t)"

definition heading_of :: "unicode \<Rightarrow> nat \<Rightarrow> pstr \<Rightarrow> heading" where
  "heading_of U n s =
     \<lparr> level = hashes s, htext = strip (drop (hashes s) s),
       anchor = generate_anchor U (strip (drop (hashes s) s)), line = n \<rparr>"

definition extract_spec :: "unicode \<Rightarrow> pstr \<Rightarrow> nat \<Rightarrow> heading list" where
  "extract_spec U D d =
     map (\<lambda>(n, s). heading_of U n s)
       (filter (\<lambda>(n, s). heading_line s \<and> hashes s \<le> d)
          (enumerate 1 (map strip (split_nl D))))"

text \<open>What \<open>strip\<close> returns: no whitespace at either end.\<close>

definition stripped :: "pstr \<Rightarrow> bool" where
  "stripped s = (s = [] \<or> (\<not> is_space (hd s) \<and> \<not> is_space (last s)))"

text \<open>A document with two headings and four lines that only look like headings.\<close>

definition doc_c2 :: pstr where
  "doc_c2 = py ''# A'' @ [10] @ py ''#x'' @ [10] @ py ''####### y'' @ [10] @ py ''#'' @ [10] @
            py ''  ## B c  '' @ [10] @ py ''### C''"

text \<open>
  The specification's wording of the rendered text: the header line, an empty line, then
  for each heading its entry on a line of its own; the text ends with the newline of the
  last entry, so its last line is empty.
\<close>

definition toc_entry :: "heading \<Rightarrow> pstr" where
  "toc_entry h =
     replicate ((level h - 1) * 2) 32 @ py ''- ['' @ htext h @ py ''](#'' @ anchor h @ py '')''"

definition toc_spec :: "heading list \<Rightarrow> pstr" where
  "toc_spec hs = toc_header_ja @ [10] @ [10] @ concat (map (\<lambda>h. toc_entry h @ [10]) hs)"

text \<open>The example document of the specification, and the rendered text it claims for it.\<close>

definition spec_example_doc :: pstr where
  "spec_example_doc =
     py ''# Title'' @ [10, 10] @ py ''## Intro'' @ [10] @ py ''## Details'' @ [10] @
     py ''### Sub'' @ [10]"

definition spec_example_toc :: pstr where
  "spec_example_toc =
     toc_header_ja @ [10, 10] @ py ''- [Intro](#intro)'' @ [10] @
     py ''- [Details](#details)'' @ [10] @ py ''  - [Sub](#sub)'' @ [10]"

text \<open>The number of lines of a document that are recognised headers.\<close>

definition header_count :: "pstr \<Rightarrow> nat" where
  "header_count D = length (filter is_toc_header (split_nl D))"

text \<open>A heading whose text and anchor hold no newline, as every extracted heading.\<close>

definition plain_heading :: "heading \<Rightarrow> bool" where
  "plain_heading h = (10 \<notin> set (htext h) \<and> 10 \<notin> set (anchor h))"


definition one_heading :: "heading list" where
  "one_heading = [\<lparr> level = 1, htext = py ''T'', anchor = py ''t'', line = 1 \<rparr>]"

text \<open>A document with a title and no table of contents.\<close>

definition doc_no_toc :: pstr where
  "doc_no_toc = py ''# T'' @ [10] @ py ''text''"

text \<open>
  A document whose header is followed by an empty line and a paragraph, then by a section;
  a document that is a title only; a document with a title and a section.
\<close>

definition doc_fallthrough :: pstr where
  "doc_fallthrough =
     toc_header_ja @ [10, 10] @ py ''Some paragraph.'' @ [10, 10] @ py ''## Next'' @ [10] @
     py ''content''"





section \<open>Lines\<close>

lemma split_nl_ne [simp]: "split_nl s \<noteq> []"
  by (induction s) (auto split: list.splits)

lemma join_split [simp]: "join_nl (split_nl s) = s"
proof (induction s)
  case Nil
  then show ?case by simp
next
  case (Cons c cs)
  obtain l ls where sp: "split_nl cs = l # ls"
    by (cases "split_nl cs") auto
  show ?case
  proof (cases "c = 10")
    case True
    with Cons sp show ?thesis by simp
  next
    case False
    with Cons sp show ?thesis by (cases ls) auto
  qed
qed

lemma split_no_nl: "l \<in> set (split_nl s) \<Longrightarrow> 10 \<notin> set l"
proof (induction s arbitrary: l)
  case Nil
  then show ?case by simp
next
  case (Cons c cs)
  obtain l' ls where sp: "split_nl cs = l' # ls"
    by (cases "split_nl cs") auto
  from Cons.IH [of l'] sp have h: "10 \<notin> set l'" by simp
  with Cons sp show ?case by (auto split: if_splits)
qed

lemma split_plain: "10 \<notin> set a \<Longrightarrow> split_nl a = [a]"
  by (induction a) auto

lemma split_append_nl: "10 \<notin> set a \<Longrightarrow> split_nl (a @ 10 # b) = a # split_nl b"
  by (induction a) auto

lemma split_join: "ls \<noteq> [] \<Longrightarrow> list_all (\<lambda>l. 10 \<notin> set l) ls \<Longrightarrow> split_nl (join_nl ls) = ls"
proof (induction ls rule: join_nl.induct)
  case 1
  then show ?case by simp
next
  case (2 l)
  then show ?case by (simp add: split_plain)
next
  case (3 l l' ls)
  then show ?case by (simp add: split_append_nl)
qed

lemma join_append: "xs \<noteq> [] \<Longrightarrow> ys \<noteq> [] \<Longrightarrow> join_nl (xs @ ys) = join_nl xs @ 10 # join_nl ys"
  by (induction xs rule: join_nl.induct) (auto, (cases ys; simp)+)

section \<open>The loops of the locator, one iteration at a time\<close>

lemma look_back_stop: "k \<le> i \<Longrightarrow> look_back lines i k = None"
  by (simp add: look_back.simps [of lines i k])
lemma look_back_step: "i < k \<Longrightarrow> look_back lines i k =
   (if strip (lines ! k) \<noteq> [] then Some (k + 1) else look_back lines i (k - 1))"
  by (simp add: look_back.simps [of lines i k])
lemma scan_end_stop: "length lines \<le> j \<Longrightarrow> scan_end lines i j = None"
  by (simp add: scan_end.simps [of lines i j])
lemma scan_end_step: "j < length lines \<Longrightarrow> scan_end lines i j =
     (if is_h12 (strip (lines ! j)) then Some j
        else if i + 1 < j \<and> strip (lines ! j) \<noteq> [] \<and> \<not> starts_with (strip (lines ! j)) (py ''-'') \<and>
                \<not> starts_with (strip (lines ! j)) (py ''  -'')
        then look_back lines i (j - 1)
        else scan_end lines i (j + 1))"
  by (simp add: scan_end.simps [of lines i j] Let_def)
lemma skip_blank_stop: "length lines \<le> p \<Longrightarrow> skip_blank lines p = p"
  by (simp add: skip_blank.simps [of lines p])
lemma skip_blank_step: "p < length lines \<Longrightarrow> skip_blank lines p =
   (if strip (lines ! p) = [] then skip_blank lines (p + 1) else p)"
  by (simp add: skip_blank.simps [of lines p])

lemmas str_eval = py_def strip_def strip_chars_def starts_with_def is_space_def
lemmas re_eval = in_bounds_def heading_re_def is_h12_def
lemmas toc_eval = toc_headers_def toc_header_ja_def is_toc_header_def toc_line_def generate_toc_def
lemmas loc_eval = locate_def find_existing_toc_def insert_position_def insert_or_update_toc_def
  look_back_stop look_back_step scan_end_stop scan_end_step skip_blank_stop skip_blank_step
lemmas anchor_eval = generate_anchor_def is_word_def ascii_unicode_def ascii_lower_def

section \<open>What the locator returns\<close>

lemma toc_header_ne: "is_toc_header l \<Longrightarrow> l \<noteq> []"
  by (auto simp: is_toc_header_def strip_def strip_chars_def toc_headers_def toc_header_ja_def py_def)

lemma find_header_Some:
  "find_header ls i = Some k \<Longrightarrow>
     i \<le> k \<and> k - i < length ls \<and> is_toc_header (ls ! (k - i)) \<and>
     (\<forall>j < k - i. \<not> is_toc_header (ls ! j))"
proof (induction ls arbitrary: i)
  case Nil
  then show ?case by simp
next
  case (Cons l ls)
  show ?case
  proof (cases "is_toc_header l")
    case True
    with Cons.prems show ?thesis by simp
  next
    case False
    with Cons.prems have "find_header ls (Suc i) = Some k" by simp
    from Cons.IH [OF this] have ih: "Suc i \<le> k" "k - Suc i < length ls"
      "is_toc_header (ls ! (k - Suc i))" "\<forall>j < k - Suc i. \<not> is_toc_header (ls ! j)"
      by auto
    have "k - i = Suc (k - Suc i)" using ih(1) by simp
    with ih False show ?thesis by (auto simp: nth_Cons split: nat.splits)
  qed
qed

lemma find_header_None: "find_header ls i = None \<longleftrightarrow> list_all (\<lambda>l. \<not> is_toc_header l) ls"
  by (induction ls arbitrary: i) auto

lemma find_header_append:
  "list_all (\<lambda>l. \<not> is_toc_header l) pre \<Longrightarrow> is_toc_header h \<Longrightarrow>
   find_header (pre @ h # post) i = Some (i + length pre)"
  by (induction pre arbitrary: i) auto

lemma look_back_Some:
  "look_back lines i k = Some e \<Longrightarrow> i < e - 1 \<and> e - 1 \<le> k \<and> 0 < e \<and> strip (lines ! (e - 1)) \<noteq> []"
proof (induction lines i k rule: look_back.induct)
  case (1 lines i k)
  show ?case
  proof (cases "k \<le> i")
    case True
    with "1.prems" show ?thesis by (simp add: look_back.simps [of lines i k])
  next
    case False
    show ?thesis
    proof (cases "strip (lines ! k) \<noteq> []")
      case True
      with False "1.prems" show ?thesis by (auto simp: look_back.simps [of lines i k])
    next
      case b: False
      with False "1.prems" have "look_back lines i (k - 1) = Some e"
        by (simp add: look_back.simps [of lines i k])
      from "1.IH" [OF False _ this] b show ?thesis by auto
    qed
  qed
qed

lemma scan_end_Some:
  "scan_end lines i j = Some e \<Longrightarrow> i < j \<Longrightarrow> i < e \<and> e \<le> length lines"
proof (induction lines i j rule: scan_end.induct)
  case (1 lines i j)
  show ?case
  proof (cases "length lines \<le> j")
    case True
    with "1.prems" show ?thesis by (simp add: scan_end.simps [of lines i j])
  next
    case False
    define nl where "nl = strip (lines ! j)"
    show ?thesis
    proof (cases "is_h12 nl")
      case True
      with False "1.prems" show ?thesis by (simp add: nl_def scan_end.simps [of lines i j])
    next
      case h: False
      show ?thesis
      proof (cases "i + 1 < j \<and> nl \<noteq> [] \<and> \<not> starts_with nl (py ''-'') \<and> \<not> starts_with nl (py ''  -'')")
        case True
        with h False "1.prems" have "look_back lines i (j - 1) = Some e"
          by (simp add: nl_def scan_end.simps [of lines i j])
        from look_back_Some [OF this] False show ?thesis by auto
      next
        case c: False
        with h False "1.prems" have "scan_end lines i (j + 1) = Some e"
          by (auto simp add: nl_def scan_end.simps [of lines i j])
        moreover have "i < j + 1" using "1.prems" by simp
        ultimately show ?thesis
          using "1.IH" [OF False nl_def h c] by blast
      qed
    qed
  qed
qed

lemma locate_Some:
  "locate lines = (Some s, Some e) \<Longrightarrow>
     s < length lines \<and> is_toc_header (lines ! s) \<and> s < e \<and> e \<le> length lines"
proof -
  assume a: "locate lines = (Some s, Some e)"
  then have fh: "find_header lines 0 = Some s"
    by (auto simp: locate_def split: option.splits)
  from find_header_Some [OF fh] have s: "s < length lines" "is_toc_header (lines ! s)" by auto
  from a fh have "scan_end lines s (s + 1) = Some e \<or>
      (scan_end lines s (s + 1) = None \<and> look_back lines s (length lines - 1) = Some e)"
    by (auto simp: locate_def split: option.splits)
  then have "s < e \<and> e \<le> length lines"
  proof
    assume "scan_end lines s (s + 1) = Some e"
    from scan_end_Some [OF this] show ?thesis by simp
  next
    assume "scan_end lines s (s + 1) = None \<and> look_back lines s (length lines - 1) = Some e"
    then have "look_back lines s (length lines - 1) = Some e" by simp
    from look_back_Some [OF this] show ?thesis by auto
  qed
  with s show ?thesis by simp
qed

lemma join_inj:
  assumes "join_nl xs = join_nl ys" "xs \<noteq> []" "ys \<noteq> []"
    "list_all (\<lambda>l. 10 \<notin> set l) xs" "list_all (\<lambda>l. 10 \<notin> set l) ys"
  shows "xs = ys"
proof -
  have "split_nl (join_nl xs) = split_nl (join_nl ys)" using assms(1) by simp
  then show ?thesis using split_join [OF assms(2,4)] split_join [OF assms(3,5)] by simp
qed

lemma split_all_no_nl: "list_all (\<lambda>l. 10 \<notin> set l) (split_nl s)"
  by (simp add: list_all_iff split_no_nl)

lemma take_drop_no_nl:
  "list_all (\<lambda>l. 10 \<notin> set l) ls \<Longrightarrow> list_all (\<lambda>l. 10 \<notin> set l) ms \<Longrightarrow>
   list_all (\<lambda>l. 10 \<notin> set l) (take a ls @ ms @ drop b ls)"
  by (auto simp: list_all_iff dest: in_set_takeD in_set_dropD)

lemma splice_unfold:
  "insert_or_update_toc D toc =
     (case locate (split_nl D) of
        (Some s, Some e) \<Rightarrow> join_nl (take s (split_nl D) @ split_nl toc @ drop e (split_nl D))
      | (Some s, None) \<Rightarrow>
          join_nl (take (insert_position (split_nl D)) (split_nl D) @ [[]] @ split_nl toc @
                   drop (insert_position (split_nl D)) (split_nl D))
      | (None, b) \<Rightarrow>
          join_nl (take (insert_position (split_nl D)) (split_nl D) @ [[]] @ split_nl toc @
                   drop (insert_position (split_nl D)) (split_nl D)))"
  by (simp add: insert_or_update_toc_def find_existing_toc_def Let_def)

lemma splice_insert:
  "fst (locate (split_nl D)) = None \<or> snd (locate (split_nl D)) = None \<Longrightarrow>
   insert_or_update_toc D toc =
     join_nl (take (insert_position (split_nl D)) (split_nl D) @ [[]] @ split_nl toc @
              drop (insert_position (split_nl D)) (split_nl D))"
  by (cases "locate (split_nl D)") (auto simp: splice_unfold split: option.splits)

lemma splice_replace:
  "locate (split_nl D) = (Some s, Some e) \<Longrightarrow>
   insert_or_update_toc D toc = join_nl (take s (split_nl D) @ split_nl toc @ drop e (split_nl D))"
  by (simp add: splice_unfold)

lemma join_eq_lines:
  assumes "join_nl xs = D" "xs \<noteq> []" "list_all (\<lambda>l. 10 \<notin> set l) xs"
  shows "xs = split_nl D"
  using split_join [OF assms(2,3)] assms(1) by simp

lemma splice_empty_changes: "insert_or_update_toc D [] \<noteq> D"
proof
  assume eq: "insert_or_update_toc D [] = D"
  define lines where "lines = split_nl D"
  have nn: "list_all (\<lambda>l. 10 \<notin> set l) lines" by (simp add: lines_def split_all_no_nl)
  define p where "p = insert_position lines"
  show False
  proof (cases "fst (locate lines) = None \<or> snd (locate lines) = None")
    case True
    then have "insert_or_update_toc D [] = join_nl (take p lines @ [[]] @ split_nl [] @ drop p lines)"
      unfolding lines_def p_def by (rule splice_insert)
    with eq have "join_nl (take p lines @ [[], []] @ drop p lines) = D" by simp
    moreover have "list_all (\<lambda>l. 10 \<notin> set l) (take p lines @ [[], []] @ drop p lines)"
      by (rule take_drop_no_nl [OF nn]) simp
    ultimately have "take p lines @ [[], []] @ drop p lines = lines"
      unfolding lines_def by (intro join_eq_lines) simp_all
    then have "length (take p lines @ [[], []] @ drop p lines) = length lines" by simp
    then show False by simp
  next
    case False
    then obtain s e where loc: "locate lines = (Some s, Some e)"
      by (cases "locate lines") auto
    from locate_Some [OF loc] have s: "s < length lines" "is_toc_header (lines ! s)" by auto
    from loc have "insert_or_update_toc D [] = join_nl (take s lines @ split_nl [] @ drop e lines)"
      unfolding lines_def by (rule splice_replace)
    with eq have "join_nl (take s lines @ [[]] @ drop e lines) = D" by simp
    moreover have "list_all (\<lambda>l. 10 \<notin> set l) (take s lines @ [[]] @ drop e lines)"
      by (rule take_drop_no_nl [OF nn]) simp
    ultimately have "take s lines @ [[]] @ drop e lines = lines"
      unfolding lines_def by (intro join_eq_lines) simp_all
    then have "(take s lines @ [[]] @ drop e lines) ! s = lines ! s" by simp
    moreover have "(take s lines @ [[]] @ drop e lines) ! s = []"
      using s(1) by (simp add: nth_append)
    ultimately show False using toc_header_ne [OF s(2)] by simp
  qed
qed

section \<open>The empty table of contents\<close>

text \<open>
  C8. When no heading is extracted, \<open>process_note\<close> returns the success
  \<open>No headings found\<close> without rendering, splicing or writing back: no update call is
  made, so the note keeps its text, and the process exits with status 0.
\<close>

theorem no_headings_terminal:
  "extract_headings U D d = [] \<Longrightarrow>
     process_note U upd D d dry = (\<lparr> success = True, message = ''No headings found'' \<rparr>, []) \<and>
     exit_code (fst (process_note U upd D d dry)) = 0"
  by (simp add: process_note_def exit_code_def)

theorem no_headings_terminal_witness:
  "extract_headings ascii_unicode (py ''plain text'') 3 = [] \<and>
   process_note ascii_unicode (\<lambda>new base. None) (py ''plain text'') 3 False =
     (\<lparr> success = True, message = ''No headings found'' \<rparr>, []) \<and>
   exit_code (fst (process_note ascii_unicode (\<lambda>new base. None) (py ''plain text'') 3 False)) = 0"
proof -
  have h: "extract_headings ascii_unicode (py ''plain text'') 3 = []"
    by (simp add: extract_headings_def str_eval re_eval)
  from no_headings_terminal [OF h, of "\<lambda>new base. None" False] h show ?thesis by blast
qed

text \<open>
  C6, as the specification states it, fails: splicing the empty text into the document
  \<open># T\<close>, \<open>text\<close> inserts two empty lines behind the title.
\<close>

theorem splice_empty_counterexample:
  "insert_or_update_toc (py ''# T'' @ [10] @ py ''text'') [] \<noteq> py ''# T'' @ [10] @ py ''text''"
  by (simp add: str_eval re_eval toc_eval loc_eval)

text \<open>
  C6, amended. Rendering the empty heading sequence yields the empty string. Splicing the
  empty string is never a no-op: \<open>insert_or_update_toc\<close> inserts two empty lines or puts
  one empty line in the place of the located block. The document stays unchanged because
  the caller, \<open>process_note\<close>, returns before rendering and splicing when no heading was
  extracted, and makes no update call.
\<close>

theorem empty_toc_behaviour:
  "generate_toc [] = [] \<and>
   insert_or_update_toc D [] \<noteq> D \<and>
   (extract_headings U D d = [] \<longrightarrow> snd (process_note U upd D d dry) = [])"
  by (simp add: generate_toc_def splice_empty_changes process_note_def)

theorem empty_toc_behaviour_witness:
  "generate_toc [] = [] \<and>
   insert_or_update_toc (py ''plain text'') [] \<noteq> py ''plain text'' \<and>
   extract_headings ascii_unicode (py ''plain text'') 3 = [] \<and>
   snd (process_note ascii_unicode (\<lambda>new base. None) (py ''plain text'') 3 False) = []"
proof -
  have h: "extract_headings ascii_unicode (py ''plain text'') 3 = []"
    by (simp add: extract_headings_def str_eval re_eval)
  from empty_toc_behaviour [of "py ''plain text''" ascii_unicode 3 "\<lambda>new base. None" False] h
  show ?thesis by simp
qed

section \<open>The regular expressions, characterised\<close>

lemma greedy_splits_index:
  "greedy_splits cls s =
     map (\<lambda>k. (take k s, drop k s)) (rev [0..<Suc (length (takeWhile cls s))])"
proof (induction s)
  case Nil
  then show ?case by simp
next
  case (Cons c cs)
  show ?case
  proof (cases "cls c")
    case False
    then show ?thesis by simp
  next
    case True
    define m where "m = length (takeWhile cls cs)"
    have "rev [0..<Suc (Suc m)] = rev (map Suc [0..<Suc m]) @ [0]"
      by (simp only: map_Suc_upt upt_conv_Cons [of 0 "Suc (Suc m)"]) simp
    then have "map (\<lambda>k. (take k (c # cs), drop k (c # cs))) (rev [0..<Suc (Suc m)]) =
        map (\<lambda>k. (c # take k cs, drop k cs)) (rev [0..<Suc m]) @ [([], c # cs)]"
      by (simp add: rev_map comp_def del: upt_Suc)
    with True Cons show ?thesis
      by (simp add: m_def comp_def case_prod_beta del: upt_Suc)
  qed
qed

lemma filter_bounds_upt:
  "filter (in_bounds lo hi) [0..<Suc m] =
     [lo..<Suc (case hi of None \<Rightarrow> m | Some h \<Rightarrow> min m h)]"
proof -
  have "sorted (filter (in_bounds lo hi) [0..<Suc m])" by (rule sorted_wrt_filter) (rule sorted_upt)
  moreover have "distinct (filter (in_bounds lo hi) [0..<Suc m])"
    by (rule distinct_filter) (rule distinct_upt)
  moreover have "set (filter (in_bounds lo hi) [0..<Suc m]) =
      set [lo..<Suc (case hi of None \<Rightarrow> m | Some h \<Rightarrow> min m h)]"
    by (auto simp: in_bounds_def simp del: upt_Suc split: option.splits)
  ultimately show ?thesis
    by (intro sorted_distinct_set_unique) (simp_all del: upt_Suc)
qed

lemma re_seq_index:
  "re_seq ((cls, lo, hi) # as) dollar s =
     first_some (map (\<lambda>k. map_option (Cons (take k s)) (re_seq as dollar (drop k s)))
       (rev [lo..<Suc (top_len cls hi s)]))"
proof -
  define m where "m = length (takeWhile cls s)"
  have m: "m \<le> length s" unfolding m_def by (rule length_takeWhile_le)
  have "filter (\<lambda>(p, r). in_bounds lo hi (length p)) (greedy_splits cls s) =
      map (\<lambda>k. (take k s, drop k s)) (filter (in_bounds lo hi) (rev [0..<Suc m]))"
    unfolding greedy_splits_index m_def [symmetric] filter_map
    using m by (intro arg_cong [where f = "map _"] filter_cong) (auto simp: min_def)
  also have "filter (in_bounds lo hi) (rev [0..<Suc m]) = rev [lo..<Suc (top_len cls hi s)]"
    unfolding rev_filter [symmetric] filter_bounds_upt top_len_def m_def ..
  finally show ?thesis
    by (simp add: comp_def del: upt_Suc)
qed

lemma first_some_all_None: "list_all (\<lambda>x. g x = None) xs \<Longrightarrow> first_some (map g xs) = None"
  by (induction xs) auto

lemma first_some_head:
  "list_all (\<lambda>x. g x = None) xs \<Longrightarrow> first_some (map g (x # xs)) = g x"
  by (cases "g x") (auto simp: first_some_all_None)

lemma rev_upt_head: "lo \<le> tp \<Longrightarrow> rev [lo..<Suc tp] = tp # rev [lo..<tp]"
  by simp

lemma re_single:
  "re_seq [(cls, lo, hi)] False s =
     (if lo \<le> top_len cls hi s then Some [take (top_len cls hi s) s] else None)"
  by (simp add: re_seq_index del: upt_Suc re_seq.simps(2)) (simp)

lemma re_sub_class:
  "re_sub [(P, 1, Some 1)] [] s = filter (\<lambda>c. \<not> P c) s"
proof (induction s)
  case Nil
  then show ?case by (simp add: re_single top_len_def del: re_seq.simps)
next
  case (Cons c cs)
  then show ?case
    by (simp add: re_single top_len_def del: re_seq.simps)
qed

lemma re_sub_plus:
  "re_sub [(P, 1, None)] rep s = squeeze P rep s"
proof (induction P rep s rule: squeeze.induct)
  case (1 P rep)
  then show ?case by (simp add: re_single top_len_def del: re_seq.simps)
next
  case (2 P rep c cs)
  show ?case
  proof (cases "P c")
    case True
    have "drop (length (takeWhile P cs)) cs = dropWhile P cs"
      by (simp add: dropWhile_eq_drop)
    moreover have "min (length cs) (length (takeWhile P cs)) = length (takeWhile P cs)"
      by (simp add: length_takeWhile_le min_absorb2)
    ultimately show ?thesis using True 2
      by (simp add: re_single top_len_def del: re_seq.simps)
  next
    case False
    with 2 show ?thesis
      by (simp add: re_single top_len_def del: re_seq.simps)
  qed
qed

lemma runs_ne: "r \<in> set (runs P s) \<Longrightarrow> r \<noteq> []"
  by (induction s arbitrary: r) (auto split: list.splits if_splits)

lemma runs_Nil_iff [simp]: "runs P s = [] \<longleftrightarrow> s = []"
  by (cases s) (auto split: list.splits)

lemma runs_in:
  "P c \<Longrightarrow> runs P (c # cs) = (c # takeWhile P cs) # runs P (dropWhile P cs)"
proof (induction cs arbitrary: c)
  case Nil
  then show ?case by simp
next
  case (Cons d ds)
  show ?case
  proof (cases "P d")
    case True
    from Cons.IH [OF True] Cons.prems True show ?thesis by simp
  next
    case False
    then have "P (hd (hd (runs P (d # ds)))) = False"
      by (cases "runs P ds") (auto)
    moreover have "runs P (d # ds) \<noteq> []" by (simp only: runs_Nil_iff) simp
    ultimately show ?thesis using Cons.prems False
      by (cases "runs P (d # ds)") (simp_all del: runs.simps(2) add: runs.simps(2) [of P c])
  qed
qed

lemma runs_out:
  "\<not> P c \<Longrightarrow> runs P (c # cs) =
     (c # takeWhile (\<lambda>x. \<not> P x) cs) # runs P (dropWhile (\<lambda>x. \<not> P x) cs)"
proof (induction cs arbitrary: c)
  case Nil
  then show ?case by simp
next
  case (Cons d ds)
  show ?case
  proof (cases "P d")
    case False
    from Cons.IH [OF False] Cons.prems False show ?thesis by simp
  next
    case True
    then have "P (hd (hd (runs P (d # ds)))) = True"
      by (cases "runs P ds") (auto)
    moreover have "runs P (d # ds) \<noteq> []" by (simp only: runs_Nil_iff) simp
    ultimately show ?thesis using Cons.prems True
      by (cases "runs P (d # ds)") (simp_all del: runs.simps(2) add: runs.simps(2) [of P c])
  qed
qed

lemma squeeze_out:
  "list_all (\<lambda>x. \<not> P x) xs \<Longrightarrow> squeeze P rep (xs @ ys) = xs @ squeeze P rep ys"
  by (induction xs) auto

lemma squeeze_runs: "squeeze P rep s = replace_runs P rep s"
proof (induction s rule: length_induct)
  case (1 s)
  show ?case
  proof (cases s)
    case Nil
    then show ?thesis by (simp add: replace_runs_def)
  next
    case (Cons c cs)
    show ?thesis
    proof (cases "P c")
      case True
      have "length (dropWhile P cs) < length s"
        using Cons by (simp add: length_dropWhile_le less_Suc_eq_le)
      with 1 have "squeeze P rep (dropWhile P cs) = replace_runs P rep (dropWhile P cs)"
        by blast
      with True Cons show ?thesis
        by (simp add: replace_runs_def runs_in del: runs.simps(2))
    next
      case False
      define tw where "tw = takeWhile (\<lambda>x. \<not> P x) cs"
      define dw where "dw = dropWhile (\<lambda>x. \<not> P x) cs"
      have cs: "cs = tw @ dw" by (simp add: tw_def dw_def)
      have out: "list_all (\<lambda>x. \<not> P x) (c # tw)"
        using False by (auto simp: tw_def list_all_iff dest: set_takeWhileD)
      have "length dw < length s"
        using Cons by (simp add: dw_def length_dropWhile_le less_Suc_eq_le)
      with 1 have ih: "squeeze P rep dw = replace_runs P rep dw" by blast
      have "squeeze P rep s = (c # tw) @ squeeze P rep dw"
        using squeeze_out [OF out, of rep dw] Cons cs by simp
      moreover have "replace_runs P rep s = (c # tw) @ replace_runs P rep dw"
        using False Cons by (simp add: replace_runs_def runs_out tw_def dw_def del: runs.simps(2))
      ultimately show ?thesis using ih by simp
    qed
  qed
qed

lemma anchor_unfold:
  "generate_anchor U s =
     strip_chars (\<lambda>c. c = 45)
       (squeeze (\<lambda>c. is_space c \<or> c = 95 \<or> c = 45) [45]
         (filter (\<lambda>c. is_word U c \<or> is_space c \<or> c = 45)
           (lower U (filter (\<lambda>c. c \<noteq> 42 \<and> c \<noteq> 95 \<and> c \<noteq> 96) s))))"
  unfolding generate_anchor_def Let_def re_sub_class re_sub_plus by (simp add: de_Morgan_disj)

lemma anchor_spec: "generate_anchor U s = slug_spec U s"
  by (simp add: anchor_unfold slug_spec_def squeeze_runs Let_def)

lemma ascii_compatible_self: "ascii_compatible ascii_unicode"
  by (simp add: ascii_compatible_def)

lemma anchor_example:
  assumes "ascii_compatible U"
  shows "generate_anchor U (py ''Setup *Guide*!'') = py ''setup-guide''"
proof -
  have lo: "lower U (py ''Setup Guide!'') = py ''setup guide!''"
  proof -
    have "list_all (\<lambda>c. c < 128) (py ''Setup Guide!'')" by (simp add: py_def)
    with assms have "lower U (py ''Setup Guide!'') = lower ascii_unicode (py ''Setup Guide!'')"
      unfolding ascii_compatible_def by blast
    then show ?thesis by (simp add: py_def ascii_unicode_def ascii_lower_def)
  qed
  have al: "c < 128 \<Longrightarrow> isalnum U c = isalnum ascii_unicode c" for c
    using assms unfolding ascii_compatible_def by blast
  have f1: "filter (\<lambda>c. c \<noteq> 42 \<and> c \<noteq> 95 \<and> c \<noteq> 96) (py ''Setup *Guide*!'') = py ''Setup Guide!''"
    by (simp add: py_def)
  have f3: "filter (\<lambda>c. is_word U c \<or> is_space c \<or> c = 45) (py ''setup guide!'') = py ''setup guide''"
    by (simp add: py_def is_word_def al is_space_def ascii_unicode_def)
  have f4: "squeeze (\<lambda>c. is_space c \<or> c = 95 \<or> c = 45) [45] (py ''setup guide'') = py ''setup-guide''"
    by (simp add: py_def is_space_def)
  show ?thesis
    unfolding anchor_unfold f1 lo f3 f4 by (simp add: strip_chars_def py_def)
qed

lemma squeeze_chars:
  "c \<in> set (squeeze P [45] s) \<Longrightarrow> c = 45 \<or> (c \<in> set s \<and> \<not> P c)"
proof (induction P "[45::nat]" s rule: squeeze.induct)
  case (1 P)
  then show ?case by simp
next
  case (2 P d ds)
  then show ?case
    by (auto split: if_splits dest: set_dropWhileD)
qed

lemma squeeze_head:
  "\<not> P d \<Longrightarrow> squeeze P rep (d # ds) = d # squeeze P rep ds"
  by simp

lemma isolated_squeeze: "P 45 \<Longrightarrow> isolated P (squeeze P [45] s)"
proof (induction P "[45::nat]" s rule: squeeze.induct)
  case (1 P)
  then show ?case by simp
next
  case (2 P c cs)
  show ?case
  proof (cases "P c")
    case False
    with 2 show ?thesis by simp
  next
    case True
    have ih: "isolated P (squeeze P [45] (dropWhile P cs))" using 2 True by simp
    have "case squeeze P [45] (dropWhile P cs) of [] \<Rightarrow> True | d # ds \<Rightarrow> \<not> P d"
    proof (cases "dropWhile P cs")
      case Nil
      then show ?thesis by (simp only: squeeze.simps list.case)
    next
      case (Cons d ds)
      then have "\<not> P d" using hd_dropWhile [of P cs] by simp
      then have "squeeze P [45] (d # ds) = d # squeeze P [45] ds" by (rule squeeze_head)
      with Cons \<open>\<not> P d\<close> show ?thesis by (simp del: squeeze.simps)
    qed
    with ih True 2 show ?thesis by simp
  qed
qed

lemma isolated_fix: "isolated P t \<Longrightarrow> squeeze P [45] t = t"
proof (induction t)
  case Nil
  then show ?case by simp
next
  case (Cons c cs)
  show ?case
  proof (cases "P c")
    case False
    with Cons show ?thesis by simp
  next
    case True
    with Cons.prems have c: "c = 45" and nx: "case cs of [] \<Rightarrow> True | d # ds \<Rightarrow> \<not> P d"
      and iso: "isolated P cs" by auto
    from nx have "dropWhile P cs = cs" by (cases cs) auto
    with Cons.IH [OF iso] True c show ?thesis by simp
  qed
qed

lemma isolated_suffix: "isolated P (a @ b) \<Longrightarrow> isolated P b"
  by (induction a) auto

lemma isolated_prefix: "isolated P (a @ b) \<Longrightarrow> isolated P a"
proof (induction a)
  case Nil
  then show ?case by simp
next
  case (Cons c a)
  then show ?case by (cases a) (auto split: list.splits)
qed

lemma strip_chars_sub: "\<exists>a b. t = a @ strip_chars Q t @ b"
proof -
  define u where "u = dropWhile Q t"
  have "t = takeWhile Q t @ u" by (simp add: u_def)
  moreover have "rev (rev u) = rev (takeWhile Q (rev u) @ dropWhile Q (rev u))"
    by (simp only: takeWhile_dropWhile_id)
  then have "u = rev (dropWhile Q (rev u)) @ rev (takeWhile Q (rev u))"
    by (simp only: rev_rev_ident rev_append)
  ultimately have "t = takeWhile Q t @ strip_chars Q t @ rev (takeWhile Q (rev u))"
    by (simp add: strip_chars_def u_def)
  then show ?thesis by blast
qed

lemma strip_chars_set: "c \<in> set (strip_chars Q t) \<Longrightarrow> c \<in> set t"
  using strip_chars_sub [of t Q] by (metis Un_iff set_append)

lemma isolated_strip: "isolated P t \<Longrightarrow> isolated P (strip_chars Q t)"
  using strip_chars_sub [of t Q] by (metis isolated_prefix isolated_suffix)

lemma strip_chars_ends:
  "strip_chars Q t = [] \<or> (\<not> Q (hd (strip_chars Q t)) \<and> \<not> Q (last (strip_chars Q t)))"
proof (cases "strip_chars Q t = []")
  case True
  then show ?thesis by simp
next
  case False
  define u where "u = dropWhile Q t"
  define v where "v = dropWhile Q (rev u)"
  have s: "strip_chars Q t = rev v" by (simp add: strip_chars_def u_def v_def)
  with False have vne: "v \<noteq> []" by simp
  then have une: "u \<noteq> []" by (auto simp: v_def)
  have "\<not> Q (hd v)" using vne hd_dropWhile [of Q "rev u"] by (simp add: v_def)
  then have l: "\<not> Q (last (rev v))" using vne by (simp add: last_rev)
  have "\<not> Q (hd u)" using une hd_dropWhile [of Q t] by (simp add: u_def)
  moreover have "last v = last (rev u)"
  proof -
    have "rev u = takeWhile Q (rev u) @ v" by (simp add: v_def)
    then show ?thesis using vne by (metis last_appendR)
  qed
  then have "hd (rev v) = hd u" using vne une by (simp add: hd_rev last_rev)
  ultimately show ?thesis using l s by simp
qed

lemma strip_chars_fix:
  "t = [] \<or> (\<not> Q (hd t) \<and> \<not> Q (last t)) \<Longrightarrow> strip_chars Q t = t"
proof (cases "t = []")
  case True
  then show ?thesis by (simp add: strip_chars_def)
next
  case False
  assume "t = [] \<or> (\<not> Q (hd t) \<and> \<not> Q (last t))"
  with False have h: "\<not> Q (hd t)" and l: "\<not> Q (last t)" by auto
  from h False have "dropWhile Q t = t" by (cases t) auto
  moreover from l False have "dropWhile Q (rev t) = rev t"
    by (cases "rev t") (auto simp: last_rev hd_rev)
  ultimately show ?thesis by (simp add: strip_chars_def)
qed

lemma strip_chars_idem: "strip_chars Q (strip_chars Q t) = strip_chars Q t"
  by (rule strip_chars_fix) (rule strip_chars_ends)

lemma anchor_idem:
  assumes "\<not> isalnum U 42" "\<not> isalnum U 96" "lower_stable U"
  shows "generate_anchor U (generate_anchor U x) = generate_anchor U x"
proof -
  define P where "P = (\<lambda>c. is_space c \<or> c = 95 \<or> c = (45::nat))"
  define K where "K = (\<lambda>c. is_word U c \<or> is_space c \<or> c = 45)"
  define R where "R = (\<lambda>c::nat. c \<noteq> 42 \<and> c \<noteq> 95 \<and> c \<noteq> 96)"
  define z where "z = filter K (lower U (filter R x))"
  define y where "y = strip_chars (\<lambda>c. c = 45) (squeeze P [45] z)"
  have unf: "generate_anchor U s =
      strip_chars (\<lambda>c. c = 45) (squeeze P [45] (filter K (lower U (filter R s))))" for s
    by (simp add: anchor_unfold P_def K_def R_def)
  have y: "generate_anchor U x = y" by (simp add: unf y_def z_def)
  have chars: "c = 45 \<or> (K c \<and> \<not> P c \<and> c \<in> set (lower U (filter R x)))" if "c \<in> set y" for c
  proof -
    from that have "c \<in> set (squeeze P [45] z)" unfolding y_def by (rule strip_chars_set)
    from squeeze_chars [OF this] show ?thesis by (auto simp: z_def)
  qed
  have r: "filter R y = y"
  proof (rule filter_True, rule ballI)
    fix c assume "c \<in> set y"
    from chars [OF this] assms(1,2) show "R c"
      by (auto simp: R_def K_def P_def is_word_def is_space_def)
  qed
  have l: "lower U y = y"
  proof -
    have "set y \<subseteq> insert 45 (set (lower U (filter R x)))" using chars by auto
    with assms(3) show ?thesis unfolding lower_stable_def by blast
  qed
  have k: "filter K y = y"
  proof (rule filter_True, rule ballI)
    fix c assume "c \<in> set y"
    from chars [OF this] show "K c" by (auto simp: K_def)
  qed
  have "isolated P (squeeze P [45] z)" by (rule isolated_squeeze) (simp add: P_def)
  then have "isolated P y" unfolding y_def by (rule isolated_strip)
  then have s: "squeeze P [45] y = y" by (rule isolated_fix)
  have t: "strip_chars (\<lambda>c. c = 45) y = y" unfolding y_def by (rule strip_chars_idem)
  show ?thesis unfolding y by (simp add: unf r l k s t)
qed

lemma lower_stable_ascii: "lower_stable ascii_unicode"
proof -
  have "map ascii_lower t = t" if "set t \<subseteq> insert 45 (set (map ascii_lower s))" for s t
  proof (rule map_idI)
    fix c assume "c \<in> set t"
    with that have "c = 45 \<or> (\<exists>d. c = ascii_lower d)" by auto
    then show "ascii_lower c = c" by (auto simp: ascii_lower_def split: if_splits)
  qed
  then show ?thesis by (simp add: lower_stable_def ascii_unicode_def)
qed

section \<open>The anchor slug\<close>

text \<open>
  C5. For every string, \<open>generate_anchor\<close> is the composition of the five steps of the
  specification: remove \<open>*\<close>, \<open>_\<close> and the backtick; lower-case; remove every
  character that is neither a word character, nor whitespace, nor a hyphen; replace every
  maximal run of whitespace, underscores and hyphens by one hyphen; trim hyphens at both
  ends. With tables that are compatible with ASCII, the slug of \<open>Setup *Guide*!\<close> is
  \<open>setup-guide\<close>.
\<close>

theorem anchor_slug_algorithm:
  "generate_anchor U s = slug_spec U s \<and>
   (ascii_compatible U \<longrightarrow> generate_anchor U (py ''Setup *Guide*!'') = py ''setup-guide'')"
  using anchor_spec [of U s] anchor_example [of U] by blast

theorem anchor_slug_algorithm_witness:
  "generate_anchor ascii_unicode (py ''Setup *Guide*!'') =
     slug_spec ascii_unicode (py ''Setup *Guide*!'') \<and>
   ascii_compatible ascii_unicode \<and>
   generate_anchor ascii_unicode (py ''Setup *Guide*!'') = py ''setup-guide''"
  using anchor_slug_algorithm [of ascii_unicode "py ''Setup *Guide*!''"] ascii_compatible_self
  by blast

text \<open>
  C9. The model is a function of the tables and of the string, so the slug is
  deterministic. Re-slugging a slug returns it, for every string, provided the tables do
  not count \<open>*\<close> and the backtick as alphanumeric and lower-casing is stable.
\<close>

theorem slug_idempotent:
  "\<not> isalnum U 42 \<Longrightarrow> \<not> isalnum U 96 \<Longrightarrow> lower_stable U \<Longrightarrow>
     generate_anchor U (generate_anchor U x) = generate_anchor U x"
  by (rule anchor_idem)

theorem slug_idempotent_witness:
  "\<not> isalnum ascii_unicode 42 \<and> \<not> isalnum ascii_unicode 96 \<and> lower_stable ascii_unicode \<and>
   generate_anchor ascii_unicode (generate_anchor ascii_unicode (py ''Setup *Guide*!'')) =
     generate_anchor ascii_unicode (py ''Setup *Guide*!'')"
proof -
  have a: "\<not> isalnum ascii_unicode 42" and b: "\<not> isalnum ascii_unicode 96"
    by (simp_all add: ascii_unicode_def)
  from slug_idempotent [OF a b lower_stable_ascii, of "py ''Setup *Guide*!''"] a b
    lower_stable_ascii
  show ?thesis by blast
qed

section \<open>Heading extraction\<close>

lemma re_dot_end:
  "10 \<notin> set t \<Longrightarrow>
   re_seq [(\<lambda>c. c \<noteq> 10, 1, None)] True t = (if t = [] then None else Some [t])"
proof (cases "t = []")
  case True
  then show ?thesis by (simp add: re_seq_index top_len_def del: re_seq.simps(2))
next
  case False
  assume nl: "10 \<notin> set t"
  define n where "n = length t"
  define g where "g = (\<lambda>k. map_option (Cons (take k t)) (re_seq [] True (drop k t)))"
  have tl: "top_len (\<lambda>c. c \<noteq> 10) None t = n"
  proof -
    have tw: "takeWhile (\<lambda>c. c \<noteq> 10) t = t" using nl by (induction t) auto
    show ?thesis unfolding top_len_def n_def tw by simp
  qed
  have n1: "1 \<le> n" using False by (cases t) (auto simp: n_def)
  have gn: "g n = Some [t]" by (simp add: g_def n_def)
  have "re_seq [(\<lambda>c. c \<noteq> 10, 1, None)] True t = first_some (map g (rev [1..<Suc n]))"
    unfolding re_seq_index tl g_def ..
  also have "\<dots> = first_some (map g (n # rev [1..<n]))"
    using n1 by (simp only: rev_upt_head)
  also have "\<dots> = Some [t]" using gn by simp
  finally show ?thesis using False by simp
qed

lemma re_space_none:
  "takeWhile is_space r = [] \<Longrightarrow> re_seq ((is_space, 1, None) # as) d r = None"
  by (simp add: re_seq_index top_len_def del: re_seq.simps(2))

lemma re_space_dot:
  assumes "10 \<notin> set r" "takeWhile is_space r \<noteq> []" "dropWhile is_space r \<noteq> []"
  shows "re_seq [(is_space, 1, None), (\<lambda>c. c \<noteq> 10, 1, None)] True r =
           Some [takeWhile is_space r, dropWhile is_space r]"
proof -
  define m where "m = length (takeWhile is_space r)"
  define g where "g = (\<lambda>k. map_option (Cons (take k r))
      (re_seq [(\<lambda>c. c \<noteq> 10, 1, None)] True (drop k r)))"
  have m1: "1 \<le> m" using assms(2) by (cases "takeWhile is_space r") (auto simp: m_def)
  have tk: "take m r = takeWhile is_space r" unfolding m_def by (rule takeWhile_eq_take [symmetric])
  have dr: "drop m r = dropWhile is_space r" unfolding m_def by (rule dropWhile_eq_drop [symmetric])
  have "10 \<notin> set (drop m r)" using assms(1) by (auto dest: in_set_dropD)
  then have "re_seq [(\<lambda>c. c \<noteq> 10, 1, None)] True (drop m r) =
      (if drop m r = [] then None else Some [drop m r])"
    by (rule re_dot_end)
  then have "re_seq [(\<lambda>c. c \<noteq> 10, 1, None)] True (drop m r) = Some [dropWhile is_space r]"
    using assms(3) by (simp only: dr if_False)
  then have gm: "g m = Some [takeWhile is_space r, dropWhile is_space r]"
    by (simp only: g_def tk option.map)
  have "re_seq [(is_space, 1, None), (\<lambda>c. c \<noteq> 10, 1, None)] True r =
      first_some (map g (rev [1..<Suc m]))"
    unfolding re_seq_index g_def top_len_def m_def by simp
  also have "\<dots> = first_some (map g (m # rev [1..<m]))"
    using m1 by (simp only: rev_upt_head)
  also have "\<dots> = Some [takeWhile is_space r, dropWhile is_space r]" using gm by simp
  finally show ?thesis .
qed

lemma hashes_le: "hashes s \<le> length s"
  unfolding hashes_def by (rule length_takeWhile_le)

lemma take_hashes: "take (hashes s) s = replicate (hashes s) 35"
proof -
  have "take (hashes s) s = takeWhile (\<lambda>c. c = 35) s"
    unfolding hashes_def by (rule takeWhile_eq_take [symmetric])
  moreover have "takeWhile (\<lambda>c. c = 35) s = replicate (length (takeWhile (\<lambda>c. c = 35) s)) 35"
    by (rule replicate_length_same [symmetric]) (auto dest: set_takeWhileD)
  ultimately show ?thesis by (simp only: hashes_def)
qed

lemma nth_hashes: "hashes s < length s \<Longrightarrow> s ! hashes s \<noteq> 35"
  unfolding hashes_def by (rule nth_length_takeWhile)

lemma drop_below_hashes:
  "k < hashes s \<Longrightarrow> takeWhile is_space (drop k s) = []"
proof -
  assume k: "k < hashes s"
  then have kl: "k < length s" using hashes_le [of s] by simp
  have "s ! k = 35"
    using k takeWhile_nth [of k "\<lambda>c. c = 35" s] nth_mem [of k "takeWhile (\<lambda>c. c = 35) s"]
    by (auto simp: hashes_def dest: set_takeWhileD)
  moreover have "drop k s = s ! k # drop (Suc k) s" using kl by (simp add: Cons_nth_drop_Suc)
  ultimately show ?thesis by (simp add: is_space_def)
qed

lemma stripped_strip: "stripped (strip l)"
  unfolding stripped_def strip_def by (rule strip_chars_ends)

lemma heading_re_match:
  assumes nl: "10 \<notin> set s" and st: "stripped s"
  shows "re_seq heading_re True s =
     (if 1 \<le> hashes s \<and> hashes s \<le> 6 \<and> hashes s < length s \<and> is_space (s ! hashes s)
      then Some [take (hashes s) s, takeWhile is_space (drop (hashes s) s),
                 dropWhile is_space (drop (hashes s) s)]
      else None)"
proof -
  define n where "n = hashes s"
  define g where "g = (\<lambda>k. map_option (Cons (take k s))
      (re_seq [(is_space, 1, None), (\<lambda>c. c \<noteq> 10, 1, None)] True (drop k s)))"
  have tl: "top_len (\<lambda>c. c = 35) (Some 6) s = min n 6"
    by (simp add: top_len_def n_def hashes_def)
  have low: "g k = None" if "k < n" for k
    unfolding g_def using drop_below_hashes [of k s] that
    by (simp only: n_def re_space_none option.map)
  have unf: "re_seq heading_re True s = first_some (map g (rev [1..<Suc (min n 6)]))"
    unfolding heading_re_def re_seq_index tl g_def ..
  define ok where "ok = (1 \<le> n \<and> n \<le> 6 \<and> n < length s \<and> is_space (s ! n))"
  have gn: "g n = (if n < length s \<and> is_space (s ! n)
      then Some [take n s, takeWhile is_space (drop n s), dropWhile is_space (drop n s)]
      else None)"
  proof (cases "n < length s \<and> is_space (s ! n)")
    case False
    then have "takeWhile is_space (drop n s) = []"
      by (cases "n < length s") (auto simp: Cons_nth_drop_Suc [symmetric])
    then show ?thesis using False unfolding g_def
      by (simp only: re_space_none option.map if_False)
  next
    case True
    then have dn: "drop n s = s ! n # drop (Suc n) s" by (simp add: Cons_nth_drop_Suc)
    with True have tw: "takeWhile is_space (drop n s) \<noteq> []" by simp
    have sne: "s \<noteq> []" using True by auto
    with st have "\<not> is_space (last s)" by (simp add: stripped_def)
    moreover have "last (drop n s) = last s" using True by simp
    ultimately have "\<exists>x \<in> set (drop n s). \<not> is_space x"
      using dn by (metis last_in_set list.distinct(1))
    then have dw: "dropWhile is_space (drop n s) \<noteq> []" by (simp add: dropWhile_eq_Nil_conv)
    have "10 \<notin> set (drop n s)" using nl by (auto dest: in_set_dropD)
    from re_space_dot [OF this tw dw] True show ?thesis
      unfolding g_def by (simp only: option.map if_True simp_thms)
  qed
  show ?thesis
  proof (cases "1 \<le> n \<and> n \<le> 6")
    case True
    then have "min n 6 = n" by simp
    moreover have "rev [1..<Suc n] = n # rev [1..<n]" using True by (simp only: rev_upt_head)
    ultimately have "rev [1..<Suc (min n 6)] = n # rev [1..<n]" by (simp only:)
    moreover have "list_all (\<lambda>k. g k = None) (rev [1..<n])"
      using low by (simp add: list_all_iff)
    ultimately have "re_seq heading_re True s = g n"
      unfolding unf by (simp only: first_some_head)
    with gn True show ?thesis by (simp add: n_def)
  next
    case False
    have "list_all (\<lambda>k. g k = None) (rev [1..<Suc (min n 6)])"
      using low False by (auto simp: list_all_iff simp del: upt_Suc)
    then have "re_seq heading_re True s = None"
      unfolding unf by (rule first_some_all_None)
    with False show ?thesis by (auto simp: n_def)
  qed
qed

lemma heading_line_iff:
  assumes st: "stripped s"
  shows "heading_line s \<longleftrightarrow>
     (1 \<le> hashes s \<and> hashes s \<le> 6 \<and> hashes s < length s \<and> is_space (s ! hashes s))"
proof
  assume "heading_line s"
  then obtain k ws t where k: "1 \<le> k" "k \<le> 6" and ws: "ws \<noteq> []" "list_all is_space ws"
    and t: "t \<noteq> []" and s: "s = replicate k 35 @ ws @ t"
    unfolding heading_line_def by blast
  from ws obtain w ws' where w: "ws = w # ws'" "is_space w" by (cases ws) auto
  then have w35: "w \<noteq> 35" by (auto simp: is_space_def)
  have "takeWhile (\<lambda>c. c = 35) s = replicate k 35"
    unfolding s w using w35 by (induction k) auto
  then have h: "hashes s = k" by (simp add: hashes_def)
  have "s ! k = w" unfolding s w by (simp add: nth_append)
  with h k w s show "1 \<le> hashes s \<and> hashes s \<le> 6 \<and> hashes s < length s \<and> is_space (s ! hashes s)"
    by simp
next
  assume a: "1 \<le> hashes s \<and> hashes s \<le> 6 \<and> hashes s < length s \<and> is_space (s ! hashes s)"
  define n where "n = hashes s"
  from a have sne: "s \<noteq> []" by auto
  with st have "\<not> is_space (last s)" by (simp add: stripped_def)
  with a sne have "n \<noteq> length s - 1" by (auto simp: n_def last_conv_nth)
  with a have n2: "Suc n < length s" unfolding n_def by linarith
  have "s = take n s @ drop n s" by simp
  also have "drop n s = s ! n # drop (Suc n) s" using a by (simp add: n_def Cons_nth_drop_Suc)
  finally have "s = replicate n 35 @ [s ! n] @ drop (Suc n) s"
    by (simp add: n_def take_hashes)
  moreover have "drop (Suc n) s \<noteq> []" using n2 by simp
  ultimately show "heading_line s"
    unfolding heading_line_def using a by (intro exI [of _ n] exI [of _ "[s ! n]"] exI [of _ "drop (Suc n) s"]) (simp add: n_def)
qed

lemma strip_dropWhile: "strip (dropWhile is_space x) = strip x"
  by (simp add: strip_def strip_chars_def)

lemma strip_no_nl: "10 \<notin> set l \<Longrightarrow> 10 \<notin> set (strip l)"
  unfolding strip_def by (auto dest: strip_chars_set)

lemma heading_re_line:
  assumes "10 \<notin> set l"
  shows "re_seq heading_re True (strip l) =
     (if heading_line (strip l)
      then Some [take (hashes (strip l)) (strip l),
                 takeWhile is_space (drop (hashes (strip l)) (strip l)),
                 dropWhile is_space (drop (hashes (strip l)) (strip l))]
      else None)"
  using heading_re_match [OF strip_no_nl [OF assms] stripped_strip]
    heading_line_iff [OF stripped_strip, of l]
  by (simp only:)

lemma extract_loop_spec:
  "list_all (\<lambda>l. 10 \<notin> set l) ls \<Longrightarrow>
   extract_loop U d n ls =
     map (\<lambda>(n, s). heading_of U n s)
       (filter (\<lambda>(n, s). heading_line s \<and> hashes s \<le> d) (enumerate n (map strip ls)))"
proof (induction ls arbitrary: n)
  case Nil
  then show ?case by simp
next
  case (Cons l ls)
  then have nl: "10 \<notin> set l" and rest: "list_all (\<lambda>l. 10 \<notin> set l) ls" by auto
  note ih = Cons.IH [OF rest, of "Suc n"]
  define s where "s = strip l"
  have enum: "enumerate n (map strip (l # ls)) = (n, s) # enumerate (Suc n) (map strip ls)"
    by (simp add: s_def)
  show ?case
  proof (cases "heading_line s")
    case False
    then have m: "re_seq heading_re True s = None"
      using heading_re_line [OF nl] unfolding s_def by (simp only: if_False)
    have "extract_loop U d n (l # ls) = extract_loop U d (Suc n) ls"
      unfolding extract_loop.simps s_def [symmetric] m by simp
    with False ih show ?thesis unfolding enum by simp
  next
    case True
    then have m: "re_seq heading_re True s =
        Some [take (hashes s) s, takeWhile is_space (drop (hashes s) s),
              dropWhile is_space (drop (hashes s) s)]"
      using heading_re_line [OF nl] unfolding s_def by (simp only: if_True)
    have len: "min (length s) (hashes s) = hashes s" using hashes_le [of s] by simp
    have "extract_loop U d n (l # ls) =
        (if hashes s \<le> d then heading_of U n s # extract_loop U d (Suc n) ls
         else extract_loop U d (Suc n) ls)"
      unfolding extract_loop.simps s_def [symmetric] m
      by (simp add: len heading_of_def strip_dropWhile Let_def)
    with True ih show ?thesis unfolding enum by simp
  qed
qed

lemma extract_loop_sorted:
  "sorted_wrt (<) (map line (extract_loop U d n ls)) \<and>
   list_all (\<lambda>h. n \<le> line h \<and> line h < n + length ls) (extract_loop U d n ls)"
proof (induction ls arbitrary: n)
  case Nil
  then show ?case by simp
next
  case (Cons l ls)
  from Cons [of "Suc n"] have s: "sorted_wrt (<) (map line (extract_loop U d (Suc n) ls))"
    and b: "list_all (\<lambda>h. Suc n \<le> line h \<and> line h < Suc n + length ls)
              (extract_loop U d (Suc n) ls)" by auto
  from b have b': "list_all (\<lambda>h. n \<le> line h \<and> line h < n + length (l # ls))
              (extract_loop U d (Suc n) ls)"
    by (auto simp: list_all_iff)
  from b have gt: "\<forall>h \<in> set (extract_loop U d (Suc n) ls). n < line h"
    by (auto simp: list_all_iff)
  show ?case
    using s b' gt by (auto simp: Let_def split: option.splits)
qed

lemma extract_spec_levels:
  "list_all (\<lambda>h. 1 \<le> level h \<and> level h \<le> 6 \<and> level h \<le> d) (extract_spec U D d)"
proof -
  have "1 \<le> hashes s \<and> hashes s \<le> 6" if "heading_line s" "(n, s) \<in> set (enumerate 1 (map strip (split_nl D)))" for n s
  proof -
    from that(2) have "s \<in> set (map strip (split_nl D))" by (auto simp: in_set_enumerate_eq)
    then obtain l where "s = strip l" by auto
    with that(1) heading_line_iff [OF stripped_strip, of l] show ?thesis by simp
  qed
  then show ?thesis
    by (auto simp: extract_spec_def list_all_iff heading_of_def)
qed

lemma extract_headings_spec: "extract_headings U D d = extract_spec U D d"
  unfolding extract_headings_def extract_spec_def
  by (rule extract_loop_spec) (rule split_all_no_nl)

text \<open>
  C2. For every document and depth, \<open>extract_headings\<close> returns exactly one entry for
  each line that, trimmed, is 1 to 6 \<open>#\<close> followed by whitespace followed by
  non-empty text and whose level is at most the depth, in document order; the level is
  the count of leading \<open>#\<close>, the text the trimmed remainder, the anchor its slug and
  the line number the 1-based index of the line. Line numbers increase strictly, levels
  lie between 1 and 6 and do not exceed the depth. A line whose \<open>#\<close> is not followed
  by whitespace, that has more than six \<open>#\<close>, or that has no text, is no heading
  line and yields no entry.
\<close>

theorem heading_extraction:
  "extract_headings U D d = extract_spec U D d \<and>
   sorted_wrt (<) (map line (extract_headings U D d)) \<and>
   list_all (\<lambda>h. 1 \<le> level h \<and> level h \<le> 6 \<and> level h \<le> d) (extract_headings U D d) \<and>
   list_all (\<lambda>h. 1 \<le> line h \<and> line h \<le> length (split_nl D)) (extract_headings U D d)"
proof -
  have "list_all (\<lambda>h. 1 \<le> line h \<and> line h < 1 + length (split_nl D)) (extract_headings U D d)"
    unfolding extract_headings_def using extract_loop_sorted [of U d 1 "split_nl D"] by blast
  then have "list_all (\<lambda>h. 1 \<le> line h \<and> line h \<le> length (split_nl D)) (extract_headings U D d)"
    by (auto simp: list_all_iff)
  moreover have "sorted_wrt (<) (map line (extract_headings U D d))"
    unfolding extract_headings_def using extract_loop_sorted [of U d 1 "split_nl D"] by blast
  moreover have "list_all (\<lambda>h. 1 \<le> level h \<and> level h \<le> 6 \<and> level h \<le> d) (extract_headings U D d)"
    unfolding extract_headings_spec by (rule extract_spec_levels)
  ultimately show ?thesis using extract_headings_spec by blast
qed

lemma doc_c2_headings:
  "extract_headings ascii_unicode doc_c2 2 =
     [\<lparr> level = 1, htext = py ''A'', anchor = py ''a'', line = 1 \<rparr>,
      \<lparr> level = 2, htext = py ''B c'', anchor = py ''b-c'', line = 5 \<rparr>]"
  by (simp add: doc_c2_def extract_headings_def str_eval re_eval anchor_eval)

theorem heading_extraction_witness:
  "extract_spec ascii_unicode doc_c2 2 =
     [\<lparr> level = 1, htext = py ''A'', anchor = py ''a'', line = 1 \<rparr>,
      \<lparr> level = 2, htext = py ''B c'', anchor = py ''b-c'', line = 5 \<rparr>] \<and>
   extract_headings ascii_unicode doc_c2 2 = extract_spec ascii_unicode doc_c2 2"
  using heading_extraction [of ascii_unicode doc_c2 2] doc_c2_headings by simp

section \<open>Rendering\<close>

lemma indent_spaces: "concat (replicate n [32, 32]) = replicate (n * 2) 32"
  by (induction n) simp_all

lemma toc_line_entry: "toc_line = toc_entry"
  by (rule ext) (simp add: toc_line_def toc_entry_def indent_spaces Let_def py_def)

lemma join_lines_terminated:
  "ls \<noteq> [] \<Longrightarrow> join_nl (ls @ [[]]) = concat (map (\<lambda>l. l @ [10]) ls)"
  by (induction ls rule: join_nl.induct) auto

lemma generate_toc_spec: "hs \<noteq> [] \<Longrightarrow> generate_toc hs = toc_spec hs"
proof -
  assume ne: "hs \<noteq> []"
  have "join_nl ([toc_header_ja, []] @ map toc_line hs @ [[]]) =
      toc_header_ja @ 10 # 10 # join_nl (map toc_line hs @ [[]])"
    using ne by (cases hs) simp_all
  also have "join_nl (map toc_line hs @ [[]]) = concat (map (\<lambda>l. l @ [10]) (map toc_line hs))"
    using ne by (intro join_lines_terminated) simp
  finally show ?thesis
    using ne by (simp add: generate_toc_def toc_spec_def toc_line_entry comp_def)
qed

lemma split_line_set: "l \<in> set (split_nl s) \<Longrightarrow> set l \<subseteq> set s"
proof (induction s arbitrary: l)
  case Nil
  then show ?case by simp
next
  case (Cons c cs)
  obtain l' ls where sp: "split_nl cs = l' # ls" by (cases "split_nl cs") auto
  with Cons.IH have "set l' \<subseteq> set cs" "\<forall>x \<in> set ls. set x \<subseteq> set cs" by auto
  with Cons.prems sp show ?case by (auto split: if_splits)
qed

lemma anchor_ascii:
  assumes "ascii_compatible U" "list_all (\<lambda>c. c < 128) s"
  shows "generate_anchor U s = generate_anchor ascii_unicode s"
proof -
  define s1 where "s1 = filter (\<lambda>c. c \<noteq> 42 \<and> c \<noteq> 95 \<and> c \<noteq> 96) s"
  have a1: "list_all (\<lambda>c. c < 128) s1" using assms(2) by (auto simp: s1_def list_all_iff)
  with assms(1) have lo: "lower U s1 = lower ascii_unicode s1"
    unfolding ascii_compatible_def by blast
  have "list_all (\<lambda>c. c < 128) (lower ascii_unicode s1)"
    using a1 by (auto simp: ascii_unicode_def list_all_iff ascii_lower_def)
  then have "filter (\<lambda>c. is_word U c \<or> is_space c \<or> c = 45) (lower ascii_unicode s1) =
      filter (\<lambda>c. is_word ascii_unicode c \<or> is_space c \<or> c = 45) (lower ascii_unicode s1)"
    using assms(1) unfolding ascii_compatible_def
    by (intro filter_cong refl) (auto simp: list_all_iff is_word_def)
  then show ?thesis
    unfolding anchor_unfold s1_def [symmetric] lo by (simp only:)
qed

lemma strip_set: "set (strip l) \<subseteq> set l"
  unfolding strip_def by (auto dest: strip_chars_set)

lemma extract_ascii:
  assumes "ascii_compatible U" "list_all (\<lambda>c. c < 128) D"
  shows "extract_headings U D d = extract_headings ascii_unicode D d"
proof -
  have "heading_of U n s = heading_of ascii_unicode n s"
    if "(n, s) \<in> set (enumerate 1 (map strip (split_nl D)))" for n s
  proof -
    from that have "s \<in> set (map strip (split_nl D))" by (auto simp: in_set_enumerate_eq)
    then obtain l where l: "l \<in> set (split_nl D)" "s = strip l" by auto
    have "set (strip (drop (hashes s) s)) \<subseteq> set s"
      using strip_set [of "drop (hashes s) s"] by (auto dest: in_set_dropD)
    also have "set s \<subseteq> set l" unfolding l(2) by (rule strip_set)
    also have "set l \<subseteq> set D" using l(1) by (rule split_line_set)
    finally have "list_all (\<lambda>c. c < 128) (strip (drop (hashes s) s))"
      using assms(2) by (auto simp: list_all_iff)
    from anchor_ascii [OF assms(1) this] show ?thesis by (simp add: heading_of_def)
  qed
  then show ?thesis
    unfolding extract_headings_spec extract_spec_def
    by (intro map_cong refl) auto
qed

lemma spec_example_headings:
  "extract_headings ascii_unicode spec_example_doc 3 =
     [\<lparr> level = 1, htext = py ''Title'', anchor = py ''title'', line = 1 \<rparr>,
      \<lparr> level = 2, htext = py ''Intro'', anchor = py ''intro'', line = 3 \<rparr>,
      \<lparr> level = 2, htext = py ''Details'', anchor = py ''details'', line = 4 \<rparr>,
      \<lparr> level = 3, htext = py ''Sub'', anchor = py ''sub'', line = 5 \<rparr>]"
  by (simp add: spec_example_doc_def extract_headings_def str_eval re_eval anchor_eval)

lemma spec_example_rendered:
  "generate_toc (extract_headings ascii_unicode spec_example_doc 3) =
     toc_header_ja @ [10, 10] @ py ''- [Title](#title)'' @ [10] @
     py ''  - [Intro](#intro)'' @ [10] @ py ''  - [Details](#details)'' @ [10] @
     py ''    - [Sub](#sub)'' @ [10]"
  unfolding spec_example_headings by (simp add: toc_eval py_def numeral_2_eq_2)

lemma spec_example_ascii: "list_all (\<lambda>c. c < 128) spec_example_doc"
  by (simp add: spec_example_doc_def py_def)

text \<open>
  C4, as the specification states it, fails in its example: at depth 3 the title
  \<open># Title\<close> is a heading of level 1 and is rendered too, so the other entries are
  indented one step further than the specification's text.
\<close>

theorem rendered_example_counterexample:
  "generate_toc (extract_headings ascii_unicode spec_example_doc 3) \<noteq> spec_example_toc"
  unfolding spec_example_rendered by (simp add: spec_example_toc_def toc_header_ja_def py_def)

text \<open>
  C4, amended. For every non-empty heading sequence the rendered text is the header line
  \<open>## \<close> followed by the two characters of the Japanese header, an empty line, one line
  \<open>- [text](#anchor)\<close> per heading in input order, indented by (level - 1) * 2 spaces,
  and a final empty line. For the example document at depth 3 (with tables compatible
  with ASCII) the rendered text has four entries: the title at level 1 without
  indentation, \<open>Intro\<close> and \<open>Details\<close> indented by two spaces, \<open>Sub\<close> by four.
\<close>

theorem rendered_format:
  "(hs \<noteq> [] \<longrightarrow> generate_toc hs = toc_spec hs) \<and>
   (ascii_compatible U \<longrightarrow>
      generate_toc (extract_headings U spec_example_doc 3) =
        toc_header_ja @ [10, 10] @ py ''- [Title](#title)'' @ [10] @
        py ''  - [Intro](#intro)'' @ [10] @ py ''  - [Details](#details)'' @ [10] @
        py ''    - [Sub](#sub)'' @ [10])"
  using generate_toc_spec [of hs] extract_ascii [OF _ spec_example_ascii, of U 3]
    spec_example_rendered
  by auto

theorem rendered_format_witness:
  "extract_headings ascii_unicode spec_example_doc 3 \<noteq> [] \<and>
   generate_toc (extract_headings ascii_unicode spec_example_doc 3) =
     toc_spec (extract_headings ascii_unicode spec_example_doc 3) \<and>
   ascii_compatible ascii_unicode \<and>
   generate_toc (extract_headings ascii_unicode spec_example_doc 3) =
     toc_header_ja @ [10, 10] @ py ''- [Title](#title)'' @ [10] @
     py ''  - [Intro](#intro)'' @ [10] @ py ''  - [Details](#details)'' @ [10] @
     py ''    - [Sub](#sub)'' @ [10]"
proof -
  have ne: "extract_headings ascii_unicode spec_example_doc 3 \<noteq> []"
    unfolding spec_example_headings by simp
  from rendered_format [of "extract_headings ascii_unicode spec_example_doc 3" ascii_unicode]
    ne ascii_compatible_self
  show ?thesis by blast
qed

section \<open>The locator on a spliced document\<close>

lemma strip_Nil [simp]: "strip [] = []"
  by (simp add: strip_def strip_chars_def)

lemma is_h12_hashes0: "hashes s = 0 \<Longrightarrow> \<not> is_h12 s"
  by (simp add: is_h12_def re_seq_index top_len_def hashes_def del: re_seq.simps(2))

lemma is_h12_Nil [simp]: "\<not> is_h12 []"
  by (rule is_h12_hashes0) (simp add: hashes_def)

lemma strip_prefix: "\<exists>b. dropWhile is_space l = strip l @ b"
proof -
  define u where "u = dropWhile is_space l"
  have "rev (rev u) = rev (takeWhile is_space (rev u) @ dropWhile is_space (rev u))"
    by (simp only: takeWhile_dropWhile_id)
  then have "u = rev (dropWhile is_space (rev u)) @ rev (takeWhile is_space (rev u))"
    by (simp only: rev_rev_ident rev_append)
  then show ?thesis unfolding strip_def strip_chars_def u_def by blast
qed

lemma strip_hd:
  assumes "dropWhile is_space l = c # r"
  shows "\<exists>r'. strip l = c # r'"
proof -
  have c: "\<not> is_space c" using hd_dropWhile [of is_space l] assms by simp
  have "dropWhile is_space (rev r @ [c]) \<noteq> []"
    using c by (simp add: dropWhile_eq_Nil_conv)
  moreover have "last (dropWhile is_space (rev r @ [c])) = c"
    using c by (simp add: dropWhile_append3)
  ultimately have "\<exists>r'. rev (dropWhile is_space (rev r @ [c])) = c # r'"
    by (metis rev.simps(2) rev_rev_ident snoc_eq_iff_butlast append_Cons append_Nil)
  then show ?thesis by (simp add: strip_def strip_chars_def assms)
qed

lemma dash_line:
  assumes "dropWhile is_space l = 45 # r"
  shows "strip l \<noteq> [] \<and> starts_with (strip l) (py ''-'') \<and> \<not> is_h12 (strip l) \<and>
         \<not> is_toc_header l"
proof -
  from strip_hd [OF assms] obtain r' where s: "strip l = 45 # r'" by blast
  then have "hashes (strip l) = 0" by (simp add: hashes_def)
  then have "\<not> is_h12 (strip l)" by (rule is_h12_hashes0)
  with s show ?thesis
    by (auto simp: starts_with_def py_def is_toc_header_def toc_headers_def toc_header_ja_def)
qed

lemma blank_not_header: "strip l = [] \<Longrightarrow> \<not> is_toc_header l"
  by (simp add: is_toc_header_def toc_headers_def toc_header_ja_def py_def)

lemma title_not_header:
  assumes "starts_with l (py ''# '')"
  shows "\<not> is_toc_header l"
proof
  assume h: "is_toc_header l"
  from assms obtain r where l: "l = 35 # 32 # r"
    by (cases l; cases "tl l") (auto simp: starts_with_def py_def)
  then have "dropWhile is_space l = l" by (simp add: is_space_def)
  with strip_prefix [of l] obtain b where b: "l = strip l @ b" by auto
  from h have "\<exists>x. strip l = 35 # 35 # x"
    by (auto simp: is_toc_header_def toc_headers_def toc_header_ja_def py_def)
  then obtain x where "strip l = 35 # 35 # x" by blast
  with b l show False by simp
qed

lemma look_back_found:
  "i < q \<Longrightarrow> q \<le> k \<Longrightarrow> strip (lines ! q) \<noteq> [] \<Longrightarrow>
   \<exists>e. look_back lines i k = Some e \<and> q < e \<and> e \<le> k + 1"
proof (induction lines i k rule: look_back.induct)
  case (1 lines i k)
  have ik: "i < k" using "1.prems" by simp
  show ?case
  proof (cases "strip (lines ! k) \<noteq> []")
    case True
    with ik "1.prems" show ?thesis by (simp add: look_back_step)
  next
    case False
    with "1.prems" have "q \<noteq> k" by auto
    with "1.prems" have qk: "q \<le> k - 1" by simp
    from ik have "\<not> k \<le> i" by simp
    from "1.IH" [OF this _ "1.prems"(1) qk "1.prems"(3)] False
    obtain e where "look_back lines i (k - 1) = Some e" "q < e" "e \<le> k - 1 + 1" by auto
    with False ik show ?thesis by (simp add: look_back_step)
  qed
qed


lemma scan_end_after:
  "scan_end lines i j = Some e \<Longrightarrow> i < q \<Longrightarrow> q < j \<Longrightarrow> strip (lines ! q) \<noteq> [] \<Longrightarrow>
   q < e \<and> e \<le> length lines"
proof (induction lines i j rule: scan_end.induct)
  case (1 lines i j)
  show ?case
  proof (cases "length lines \<le> j")
    case True
    with "1.prems" show ?thesis by (simp add: scan_end_stop)
  next
    case False
    then have jl: "j < length lines" by simp
    define nl where "nl = strip (lines ! j)"
    show ?thesis
    proof (cases "is_h12 nl")
      case True
      with jl "1.prems" show ?thesis by (simp add: scan_end_step nl_def)
    next
      case h: False
      show ?thesis
      proof (cases "i + 1 < j \<and> nl \<noteq> [] \<and> \<not> starts_with nl (py ''-'') \<and>
                    \<not> starts_with nl (py ''  -'')")
        case True
        with h jl "1.prems" have lb: "look_back lines i (j - 1) = Some e"
          by (simp add: scan_end_step nl_def)
        have "q \<le> j - 1" using "1.prems" by simp
        from look_back_found [OF "1.prems"(2) this "1.prems"(4)] lb jl
        show ?thesis by auto
      next
        case c: False
        with h jl "1.prems" have "scan_end lines i (j + 1) = Some e"
          by (auto simp add: scan_end_step nl_def)
        moreover have "q < j + 1" using "1.prems" by simp
        ultimately show ?thesis
          using "1.IH" [OF False nl_def h c] "1.prems" by blast
      qed
    qed
  qed
qed


lemma header_ja: "is_toc_header toc_header_ja"
  by (simp add: is_toc_header_def toc_headers_def toc_header_ja_def str_eval)

lemma header_ja_no_nl: "10 \<notin> set toc_header_ja"
  by (simp add: toc_header_ja_def py_def)

lemma locate_fresh_block:
  assumes pre: "list_all (\<lambda>l. \<not> is_toc_header l) pre"
    and h: "is_toc_header h"
    and item: "dropWhile is_space item = 45 # r"
  shows "\<exists>e. locate (pre @ h # [] # item # rest) = (Some (length pre), Some e) \<and>
             length pre + 3 \<le> e \<and> e \<le> length (pre @ h # [] # item # rest)"
proof -
  define lines where "lines = pre @ h # [] # item # rest"
  define i where "i = length pre"
  have len: "length lines = i + 3 + length rest" by (simp add: lines_def i_def)
  have l1: "lines ! (i + 1) = []" by (simp add: lines_def i_def nth_append)
  have l2: "lines ! (i + 2) = item" by (simp add: lines_def i_def nth_append)
  from dash_line [OF item] have d: "strip item \<noteq> []" "starts_with (strip item) (py ''-'')"
    "\<not> is_h12 (strip item)" by auto
  have fh: "find_header lines 0 = Some i"
    using find_header_append [OF pre h, of "[] # item # rest" 0] by (simp add: lines_def i_def)
  have "scan_end lines i (Suc i) = scan_end lines i (Suc i + 1)"
    using len l1 by (subst scan_end_step) simp_all
  then have s1: "scan_end lines i (i + 1) = scan_end lines i (i + 2)" by simp
  have "scan_end lines i (Suc (Suc i)) = scan_end lines i (Suc (Suc i) + 1)"
    using len l2 d by (subst scan_end_step) simp_all
  then have s2: "scan_end lines i (i + 2) = scan_end lines i (i + 3)"
    by (simp add: numeral_3_eq_3)
  have q: "i < i + 2" "strip (lines ! (i + 2)) \<noteq> []" using l2 d by simp_all
  have "\<exists>e. (case scan_end lines i (i + 1) of None \<Rightarrow> look_back lines i (length lines - 1)
                | Some e \<Rightarrow> Some e) = Some e \<and> i + 3 \<le> e \<and> e \<le> length lines"
  proof (cases "scan_end lines i (i + 3)")
    case None
    have "i + 2 \<le> length lines - 1" using len by simp
    from look_back_found [OF q(1) this q(2)] obtain e where
      "look_back lines i (length lines - 1) = Some e" "i + 2 < e" "e \<le> length lines - 1 + 1"
      by blast
    with None s1 s2 len show ?thesis by simp
  next
    case (Some e)
    from scan_end_after [OF Some q(1) _ q(2)] have "i + 2 < e \<and> e \<le> length lines" by simp
    with Some s1 s2 show ?thesis by simp
  qed
  then show ?thesis
    unfolding locate_def fh lines_def [symmetric] i_def [symmetric] by auto
qed

lemma skip_blank_range:
  "p \<le> skip_blank lines p \<and>
   (\<forall>q. p \<le> q \<and> q < skip_blank lines p \<longrightarrow> strip (lines ! q) = [])"
proof (induction lines p rule: skip_blank.induct)
  case (1 lines p)
  show ?case
  proof (cases "p < length lines \<and> strip (lines ! p) = []")
    case False
    then have "skip_blank lines p = p"
      by (cases "p < length lines") (simp_all add: skip_blank_step skip_blank_stop)
    then show ?thesis by auto
  next
    case True
    then have eq: "skip_blank lines p = skip_blank lines (p + 1)" by (simp add: skip_blank_step)
    from "1.IH" [OF True] have ih: "p + 1 \<le> skip_blank lines (p + 1)"
      "\<forall>q. p + 1 \<le> q \<and> q < skip_blank lines (p + 1) \<longrightarrow> strip (lines ! q) = []" by auto
    show ?thesis unfolding eq
    proof (intro conjI allI impI)
      show "p \<le> skip_blank lines (p + 1)" using ih(1) by simp
    next
      fix q assume "p \<le> q \<and> q < skip_blank lines (p + 1)"
      then show "strip (lines ! q) = []" using ih(2) True by (cases "q = p") auto
    qed
  qed
qed

lemma no_header_before_insert:
  "list_all (\<lambda>l. \<not> is_toc_header l) (take (insert_position lines) lines)"
proof (cases "lines \<noteq> [] \<and> starts_with (lines ! 0) (py ''# '')")
  case False
  then show ?thesis by (auto simp: insert_position_def)
next
  case True
  then have p: "insert_position lines = skip_blank lines 1" by (simp add: insert_position_def)
  have "\<not> is_toc_header (take (skip_blank lines 1) lines ! q)"
    if "q < length (take (skip_blank lines 1) lines)" for q
  proof (cases q)
    case 0
    with that True show ?thesis by (simp add: title_not_header)
  next
    case (Suc q')
    with that skip_blank_range [of 1 lines] have "strip (lines ! q) = []" by simp
    with that show ?thesis by (simp add: blank_not_header)
  qed
  then show ?thesis unfolding p list_all_length by blast
qed

lemma split_first_line:
  "10 \<notin> set a \<Longrightarrow> c \<noteq> 10 \<Longrightarrow> \<exists>l' more. split_nl (a @ c # x) = (a @ c # l') # more"
proof (induction a)
  case Nil
  obtain l ls where "split_nl x = l # ls" by (cases "split_nl x") auto
  with Nil show ?case by simp
next
  case (Cons d a)
  then obtain l' more where "split_nl (a @ c # x) = (a @ c # l') # more" by auto
  with Cons.prems show ?case by simp
qed

lemma toc_entry_dash:
  "\<exists>x. toc_entry h = replicate ((level h - 1) * 2) 32 @ 45 # x"
  by (simp add: toc_entry_def py_def)

lemma spaces_dash: "dropWhile is_space (replicate n 32 @ 45 # x) = 45 # x"
  by (induction n) (simp_all add: is_space_def)

lemma generate_toc_lines:
  assumes "hs \<noteq> []"
  shows "\<exists>item r rest. split_nl (generate_toc hs) = toc_header_ja # [] # item # rest \<and>
           dropWhile is_space item = 45 # r"
proof -
  from assms obtain h hs' where hs: "hs = h # hs'" by (cases hs) auto
  obtain x where x: "toc_entry h = replicate ((level h - 1) * 2) 32 @ 45 # x"
    using toc_entry_dash by blast
  define n where "n = (level h - 1) * 2"
  define y where "y = x @ 10 # concat (map (\<lambda>h. toc_entry h @ [10]) hs')"
  have "generate_toc hs = toc_header_ja @ 10 # [] @ 10 # replicate n 32 @ 45 # y"
    using generate_toc_spec [OF assms] by (simp add: toc_spec_def hs x n_def y_def)
  then have "split_nl (generate_toc hs) = toc_header_ja # [] # split_nl (replicate n 32 @ 45 # y)"
    by (simp add: split_append_nl header_ja_no_nl)
  moreover obtain l' more where "split_nl (replicate n 32 @ 45 # y) = (replicate n 32 @ 45 # l') # more"
    using split_first_line [of "replicate n 32" 45 y] by auto
  ultimately show ?thesis using spaces_dash [of n l'] by auto
qed

lemma toc_entry_no_nl: "plain_heading h \<Longrightarrow> 10 \<notin> set (toc_entry h)"
  by (simp add: toc_entry_def plain_heading_def py_def)

lemma generate_toc_plain_lines:
  assumes "hs \<noteq> []" "list_all plain_heading hs"
  shows "split_nl (generate_toc hs) = [toc_header_ja, []] @ map toc_entry hs @ [[]]"
proof -
  have "list_all (\<lambda>l. 10 \<notin> set l) ([toc_header_ja, []] @ map toc_entry hs @ [[]])"
    using assms(2) by (auto simp: list_all_iff header_ja_no_nl toc_entry_no_nl)
  then have "split_nl (join_nl ([toc_header_ja, []] @ map toc_entry hs @ [[]])) =
      [toc_header_ja, []] @ map toc_entry hs @ [[]]"
    by (intro split_join) simp_all
  then show ?thesis using assms(1) by (simp add: generate_toc_def toc_line_entry)
qed

lemma toc_entry_not_header: "\<not> is_toc_header (toc_entry h)"
proof -
  obtain x where "toc_entry h = replicate ((level h - 1) * 2) 32 @ 45 # x"
    using toc_entry_dash by blast
  then have "dropWhile is_space (toc_entry h) = 45 # x" by (simp add: spaces_dash)
  from dash_line [OF this] show ?thesis by simp
qed

lemma generate_toc_one_header:
  assumes "hs \<noteq> []" "list_all plain_heading hs"
  shows "filter is_toc_header (split_nl (generate_toc hs)) = [toc_header_ja]"
proof -
  have "filter is_toc_header (map toc_entry hs) = []"
    by (simp add: filter_empty_conv toc_entry_not_header)
  then show ?thesis
    unfolding generate_toc_plain_lines [OF assms]
    by (simp add: header_ja blank_not_header)
qed



lemma skip_blank_le: "p \<le> length lines \<Longrightarrow> skip_blank lines p \<le> length lines"
proof (induction lines p rule: skip_blank.induct)
  case (1 lines p)
  show ?case
  proof (cases "p < length lines \<and> strip (lines ! p) = []")
    case False
    then have "skip_blank lines p = p"
      by (cases "p < length lines") (simp_all add: skip_blank_step skip_blank_stop)
    with "1.prems" show ?thesis by simp
  next
    case True
    then have "skip_blank lines p = skip_blank lines (p + 1)" by (simp add: skip_blank_step)
    with "1.IH" [OF True] True show ?thesis by simp
  qed
qed

lemma insert_position_le: "insert_position lines \<le> length lines"
proof (cases "lines \<noteq> [] \<and> starts_with (lines ! 0) (py ''# '')")
  case True
  then have "1 \<le> length lines" by (cases lines) auto
  then have "skip_blank lines 1 \<le> length lines" by (rule skip_blank_le)
  with True show ?thesis by (simp add: insert_position_def)
next
  case False
  then show ?thesis by (auto simp: insert_position_def)
qed

lemma find_existing_toc_join:
  "ls \<noteq> [] \<Longrightarrow> list_all (\<lambda>l. 10 \<notin> set l) ls \<Longrightarrow> find_existing_toc (join_nl ls) = locate ls"
  by (simp add: find_existing_toc_def split_join)

lemma inserted_lines:
  assumes "fst (locate (split_nl D)) = None \<or> snd (locate (split_nl D)) = None"
  shows "split_nl (insert_or_update_toc D toc) =
     take (insert_position (split_nl D)) (split_nl D) @ [[]] @ split_nl toc @
     drop (insert_position (split_nl D)) (split_nl D)"
proof -
  have "list_all (\<lambda>l. 10 \<notin> set l)
      (take (insert_position (split_nl D)) (split_nl D) @ ([[]] @ split_nl toc) @
       drop (insert_position (split_nl D)) (split_nl D))"
    by (rule take_drop_no_nl) (simp_all add: split_all_no_nl)
  then show ?thesis
    unfolding splice_insert [OF assms] by (intro split_join) simp_all
qed


lemma header_filter_take_drop:
  "length (filter P (take p ls)) + length (filter P (drop p ls)) = length (filter P ls)"
proof -
  have "filter P ls = filter P (take p ls @ drop p ls)" by simp
  then show ?thesis by (simp only: filter_append length_append)
qed

lemma header_count_inserted:
  assumes "fst (locate (split_nl D)) = None \<or> snd (locate (split_nl D)) = None"
  shows "header_count (insert_or_update_toc D toc) =
     header_count D + length (filter is_toc_header (split_nl toc))"
  unfolding header_count_def inserted_lines [OF assms]
  using header_filter_take_drop [of is_toc_header "insert_position (split_nl D)" "split_nl D"]
  by (simp add: blank_not_header)





lemma located_after_insert:
  assumes ins: "fst (locate (split_nl D)) = None \<or> snd (locate (split_nl D)) = None"
    and ne: "hs \<noteq> []"
  shows "\<exists>e. locate (split_nl (insert_or_update_toc D (generate_toc hs))) =
            (Some (insert_position (split_nl D) + 1), Some e) \<and>
          insert_position (split_nl D) + 4 \<le> e \<and>
          e \<le> length (split_nl (insert_or_update_toc D (generate_toc hs))) \<and>
          split_nl (insert_or_update_toc D (generate_toc hs)) ! (insert_position (split_nl D) + 1) =
            toc_header_ja"
proof -
  define L where "L = split_nl D"
  define p where "p = insert_position L"
  define pre where "pre = take p L @ [[]]"
  from generate_toc_lines [OF ne] obtain item r rest where
    T: "split_nl (generate_toc hs) = toc_header_ja # [] # item # rest"
    and item: "dropWhile is_space item = 45 # r" by blast
  have R: "split_nl (insert_or_update_toc D (generate_toc hs)) =
      pre @ toc_header_ja # [] # item # (rest @ drop p L)"
    unfolding inserted_lines [OF ins] T by (simp add: pre_def p_def L_def)
  have len: "length pre = p + 1"
    using insert_position_le [of L] by (simp add: pre_def p_def)
  have nh: "list_all (\<lambda>l. \<not> is_toc_header l) pre"
    using no_header_before_insert [of L] by (simp add: pre_def p_def blank_not_header)
  from locate_fresh_block [OF nh header_ja item, of "rest @ drop p L"]
  obtain e where "locate (pre @ toc_header_ja # [] # item # (rest @ drop p L)) =
      (Some (length pre), Some e)" "length pre + 3 \<le> e"
      "e \<le> length (pre @ toc_header_ja # [] # item # (rest @ drop p L))" by blast
  note e = this
  have h: "(pre @ toc_header_ja # [] # item # (rest @ drop p L)) ! (p + 1) = toc_header_ja"
    using len by (simp add: nth_append)
  have "locate (split_nl (insert_or_update_toc D (generate_toc hs))) = (Some (p + 1), Some e) \<and>
      p + 4 \<le> e \<and> e \<le> length (split_nl (insert_or_update_toc D (generate_toc hs))) \<and>
      split_nl (insert_or_update_toc D (generate_toc hs)) ! (p + 1) = toc_header_ja"
    unfolding R using e h len by simp
  then show ?thesis unfolding p_def L_def by (rule exI)
qed


lemma header_count_none:
  "fst (find_existing_toc D) = None \<Longrightarrow> header_count D = 0"
proof -
  assume "fst (find_existing_toc D) = None"
  then have "find_header (split_nl D) 0 = None"
    by (auto simp: find_existing_toc_def locate_def split: option.splits)
  then show ?thesis
    by (simp add: find_header_None header_count_def filter_empty_conv list_all_iff)
qed

text \<open>
  C7. Splicing the text rendered from a non-empty heading sequence into a document in
  which the locator finds no block (no header, or a header with no end), and locating
  again, finds a block: its start is the line behind the inserted empty line, that line
  is exactly the Japanese header, and its end lies behind the first entry. When the
  document had no recognised header line and no heading text or anchor holds a newline,
  the rendered header is the only recognised header line of the result.
\<close>

theorem splice_then_locate:
  assumes "fst (find_existing_toc D) = None \<or> snd (find_existing_toc D) = None"
    and "hs \<noteq> []"
  shows "\<exists>e. find_existing_toc (insert_or_update_toc D (generate_toc hs)) =
            (Some (insert_position (split_nl D) + 1), Some e) \<and>
          insert_position (split_nl D) + 4 \<le> e \<and>
          e \<le> length (split_nl (insert_or_update_toc D (generate_toc hs))) \<and>
          split_nl (insert_or_update_toc D (generate_toc hs)) ! (insert_position (split_nl D) + 1) =
            toc_header_ja \<and>
          (fst (find_existing_toc D) = None \<and> list_all plain_heading hs \<longrightarrow>
             header_count (insert_or_update_toc D (generate_toc hs)) = 1)"
proof -
  have ins: "fst (locate (split_nl D)) = None \<or> snd (locate (split_nl D)) = None"
    using assms(1) by (simp add: find_existing_toc_def)
  have "header_count (insert_or_update_toc D (generate_toc hs)) = 1"
    if "fst (find_existing_toc D) = None" "list_all plain_heading hs"
    unfolding header_count_inserted [OF ins] generate_toc_one_header [OF assms(2) that(2)]
      header_count_none [OF that(1)] by simp
  note one = this
  from located_after_insert [OF ins assms(2)] obtain e where
    "locate (split_nl (insert_or_update_toc D (generate_toc hs))) =
            (Some (insert_position (split_nl D) + 1), Some e) \<and>
          insert_position (split_nl D) + 4 \<le> e \<and>
          e \<le> length (split_nl (insert_or_update_toc D (generate_toc hs))) \<and>
          split_nl (insert_or_update_toc D (generate_toc hs)) ! (insert_position (split_nl D) + 1) =
            toc_header_ja" by (rule exE)
  with one show ?thesis
    unfolding find_existing_toc_def by (intro exI [of _ e]) simp
qed

theorem splice_then_locate_witness:
  "fst (find_existing_toc doc_no_toc) = None \<and> one_heading \<noteq> [] \<and>
   list_all plain_heading one_heading \<and>
   find_existing_toc (insert_or_update_toc doc_no_toc (generate_toc one_heading)) =
     (Some 2, Some 5) \<and>
   split_nl (insert_or_update_toc doc_no_toc (generate_toc one_heading)) ! 2 = toc_header_ja \<and>
   header_count (insert_or_update_toc doc_no_toc (generate_toc one_heading)) = 1"
proof -
  have sp: "split_nl doc_no_toc = [py ''# T'', py ''text'']"
    by (simp add: doc_no_toc_def py_def)
  have a: "fst (find_existing_toc doc_no_toc) = None"
    unfolding find_existing_toc_def sp by (simp add: locate_def toc_eval str_eval)
  have p: "insert_position (split_nl doc_no_toc) = 1"
    unfolding sp by (simp add: insert_position_def skip_blank_step str_eval)
  have c: "one_heading \<noteq> []" "list_all plain_heading one_heading"
    by (simp_all add: one_heading_def plain_heading_def py_def)
  have r: "insert_or_update_toc doc_no_toc (generate_toc one_heading) =
      py ''# T'' @ [10, 10] @ toc_header_ja @ [10, 10] @ py ''- [T](#t)'' @ [10, 10] @ py ''text''"
    by (simp add: doc_no_toc_def one_heading_def str_eval re_eval toc_eval loc_eval)
  have v: "find_existing_toc (insert_or_update_toc doc_no_toc (generate_toc one_heading)) =
     (Some 2, Some 5)"
    unfolding r by (simp add: str_eval re_eval toc_eval loc_eval)
  from splice_then_locate [of doc_no_toc one_heading] a c p v
  show ?thesis by (auto simp: numeral_2_eq_2)
qed

section \<open>The second run\<close>





text \<open>
  C3. In \<open>doc_fallthrough\<close> the header is line 0 and the first line behind position 1 that
  is neither blank nor a list item is the paragraph, line 2. The specification puts the
  end of the block one past the last non-blank line before the paragraph, which is the
  header itself: end 1. The code's backward loop does not look at the header line, finds
  nothing, leaves the end unset, and the code behind the forward loop then takes the
  last non-blank line of the whole document: end 6, past the heading \<open>## Next\<close>. A
  splice therefore replaces the whole document by the rendered text.
\<close>

theorem locator_fallthrough:
  "find_existing_toc doc_fallthrough = (Some 0, Some 6) \<and>
   length (split_nl doc_fallthrough) = 6 \<and>
   insert_or_update_toc doc_fallthrough toc = toc"
proof -
  have sp: "split_nl doc_fallthrough =
      [toc_header_ja, [], py ''Some paragraph.'', [], py ''## Next'', py ''content'']"
    by (simp add: doc_fallthrough_def toc_header_ja_def py_def)
  have loc: "locate (split_nl doc_fallthrough) = (Some 0, Some 6)"
    unfolding sp by (simp add: str_eval re_eval toc_eval loc_eval)
  have "insert_or_update_toc doc_fallthrough toc =
      join_nl (take 0 (split_nl doc_fallthrough) @ split_nl toc @ drop 6 (split_nl doc_fallthrough))"
    using loc by (rule splice_replace)
  then have "insert_or_update_toc doc_fallthrough toc = toc" unfolding sp by simp
  with loc sp show ?thesis by (simp add: find_existing_toc_def)
qed




section \<open>Stability from the second run on\<close>




















end
